theory Spec2Isabelle
  imports Complex_Main "HOL-Library.Word" "HOL-Library.Log_Nat"
begin

unbundle bit_operations_syntax

section \<open>JavaScript numbers and the 32-bit operators\<close>

text \<open>
  The lanes of the generator are JavaScript numbers, that is doubles. Every value they
  take in \<^verbatim>\<open>blocky.ts\<close> is an integer, so a lane is an \<open>int\<close>. The bitwise operators
  convert each operand to a signed 32-bit integer first (\<open>ToInt32\<close>) and give a signed
  32-bit result; \<^verbatim>\<open>>>> 0\<close> reads a number as an unsigned 32-bit integer; \<^verbatim>\<open>+\<close> and
  \<^verbatim>\<open>-\<close> are the arithmetic of doubles: they do not wrap, and they round once the
  result needs more than 53 bits.
\<close>

definition ToInt32 :: "int \<Rightarrow> int" where
  "ToInt32 x = signed_take_bit 31 x"

definition ToUint32 :: "int \<Rightarrow> int" where
  "ToUint32 x = take_bit 32 x"

definition js_shl :: "int \<Rightarrow> nat \<Rightarrow> int" where  \<comment> \<open>\<^verbatim>\<open>a << n\<close>\<close>
  "js_shl a n = ToInt32 (push_bit n (ToInt32 a))"

definition js_sar :: "int \<Rightarrow> nat \<Rightarrow> int" where  \<comment> \<open>\<^verbatim>\<open>a >> n\<close>\<close>
  "js_sar a n = drop_bit n (ToInt32 a)"

definition js_xor :: "int \<Rightarrow> int \<Rightarrow> int" where  \<comment> \<open>\<^verbatim>\<open>a ^ b\<close>\<close>
  "js_xor a b = ToInt32 a XOR ToInt32 b"

definition js_ushr0 :: "int \<Rightarrow> int" where  \<comment> \<open>\<^verbatim>\<open>a >>> 0\<close>\<close>
  "js_ushr0 a = ToUint32 a"

section \<open>Double-precision numbers\<close>

text \<open>
  A finite double is a rational number, so a double is the real number it denotes, and
  an arithmetic operator is the exact operation followed by the rounding of IEEE 754
  binary64: to the nearest double, a tie to the one with the even significand.
  \<open>ilog2 x\<close> is the exponent \<open>e\<close> of the binade of \<open>x\<close>, \<open>2^e \<le> |x| < 2^(e+1)\<close>, read
  off the number of binary digits (\<open>bitlen\<close>) of the integer part of \<open>|x|\<close> or of
  \<open>1 / |x|\<close>; the doubles of that binade are the multiples of \<open>2^(e-52)\<close>, and below
  \<open>2^-1022\<close> the multiples of \<open>2^-1074\<close>. Overflow to infinity is left out: no number of
  the program comes near the largest double. A decimal literal denotes the double nearest
  to it, so \<^verbatim>\<open>0.6\<close> is \<open>fl64 (6 / 10)\<close>.
\<close>

definition ilog2 :: "real \<Rightarrow> int" where
  "ilog2 x = (if 1 \<le> \<bar>x\<bar> then bitlen \<lfloor>\<bar>x\<bar>\<rfloor> - 1 else - bitlen (\<lceil>1 / \<bar>x\<bar>\<rceil> - 1))"

definition round_half_even :: "real \<Rightarrow> int" where
  "round_half_even y =
     (let f = \<lfloor>y\<rfloor>; d = y - of_int f
      in if d < 1 / 2 then f else if 1 / 2 < d then f + 1 else if even f then f else f + 1)"

definition fl64 :: "real \<Rightarrow> real" where
  "fl64 x =
     (if x = 0 then 0
      else let e = max (ilog2 x) (- 1022);
               ulp = 2 powi (e - 52)
           in of_int (round_half_even (x / ulp)) * ulp)"

definition dadd :: "real \<Rightarrow> real \<Rightarrow> real" where  \<comment> \<open>\<^verbatim>\<open>a + b\<close>\<close>
  "dadd a b = fl64 (a + b)"

definition dsub :: "real \<Rightarrow> real \<Rightarrow> real" where  \<comment> \<open>\<^verbatim>\<open>a - b\<close>\<close>
  "dsub a b = fl64 (a - b)"

definition dmul :: "real \<Rightarrow> real \<Rightarrow> real" where  \<comment> \<open>\<^verbatim>\<open>a * b\<close>\<close>
  "dmul a b = fl64 (a * b)"

definition ddiv :: "real \<Rightarrow> real \<Rightarrow> real" where  \<comment> \<open>\<^verbatim>\<open>a / b\<close>\<close>
  "ddiv a b = fl64 (a / b)"

text \<open>The double nearest to an integer: the result of \<^verbatim>\<open>+\<close> or \<^verbatim>\<open>-\<close> on two lanes.\<close>

definition dint :: "int \<Rightarrow> int" where
  "dint n = \<lfloor>fl64 (of_int n)\<rfloor>"

section \<open>The pseudorandom engine\<close>

type_synonym RGB = "int \<times> int \<times> int"
type_synonym RandSeed = "int \<times> int \<times> int \<times> int"

text \<open>A string is its sequence of UTF-16 code units, what \<^verbatim>\<open>charCodeAt\<close> reads.\<close>

type_synonym jsstring = "nat list"

definition charCodes :: "string \<Rightarrow> jsstring" where
  "charCodes s = map of_char s"

text \<open>\<^verbatim>\<open>randseed[k]\<close> and \<^verbatim>\<open>randseed[k] = v\<close>; the index is always \<open>i % 4\<close> or a literal.\<close>

fun lane :: "RandSeed \<Rightarrow> nat \<Rightarrow> int" where
  "lane (a, b, c, d) k = (if k = 0 then a else if k = 1 then b else if k = 2 then c else d)"

fun set_lane :: "RandSeed \<Rightarrow> nat \<Rightarrow> int \<Rightarrow> RandSeed" where
  "set_lane (a, b, c, d) k v =
     (if k = 0 then (v, b, c, d) else if k = 1 then (a, v, c, d)
      else if k = 2 then (a, b, v, d) else (a, b, c, v))"

definition seed_step :: "jsstring \<Rightarrow> nat \<Rightarrow> RandSeed \<Rightarrow> RandSeed" where
  "seed_step seed i rs =
     set_lane rs (i mod 4)
       (dint (dint (js_shl (lane rs (i mod 4)) 5 - lane rs (i mod 4)) + int (seed ! i)))"

definition createRandSeed :: "jsstring \<Rightarrow> RandSeed \<Rightarrow> RandSeed" where
  "createRandSeed seed rs = fold (seed_step seed) [0..<length seed] rs"

text \<open>
  \<^verbatim>\<open>rand\<close> returns the quotient of an integer below \<open>2^32\<close> by \<open>2^31\<close>, which is a
  double: the division is exact.
\<close>

definition rand :: "RandSeed \<Rightarrow> real \<times> RandSeed" where
  "rand rs =
     (let t = js_xor (lane rs 0) (js_shl (lane rs 0) 11);
          rs1 = set_lane rs 0 (lane rs 1);
          rs2 = set_lane rs1 1 (lane rs1 2);
          rs3 = set_lane rs2 2 (lane rs2 3);
          rs4 = set_lane rs3 3
                  (js_xor (js_xor (js_xor (lane rs3 3) (js_sar (lane rs3 3) 19)) t) (js_sar t 8))
      in (real_of_int (js_ushr0 (lane rs4 3)) / real_of_int (js_ushr0 (js_shl 1 31)), rs4))"

text \<open>Names for the new fourth lane and for the signed 32-bit range, used in the proofs.\<close>

definition xorshift :: "int \<Rightarrow> int \<Rightarrow> int" where
  "xorshift a d =
     (let t = js_xor a (js_shl a 11)
      in js_xor (js_xor (js_xor d (js_sar d 19)) t) (js_sar t 8))"

definition in32 :: "int \<Rightarrow> bool" where
  "in32 x \<longleftrightarrow> - (2 ^ 31) \<le> x \<and> x < 2 ^ 31"

text \<open>
  The seed fold as the specification words it: every lane a signed 32-bit integer,
  \<open>lane = 31 * lane + code\<close> with wrap-around. It is compared with \<open>createRandSeed\<close>.
\<close>

definition seed_step_spec :: "jsstring \<Rightarrow> nat \<Rightarrow> RandSeed \<Rightarrow> RandSeed" where
  "seed_step_spec seed i rs =
     set_lane rs (i mod 4) (ToInt32 (31 * lane rs (i mod 4) + int (seed ! i)))"

definition createRandSeed_spec :: "jsstring \<Rightarrow> RandSeed \<Rightarrow> RandSeed" where
  "createRandSeed_spec seed rs = fold (seed_step_spec seed) [0..<length seed] rs"

definition ToInt32_lanes :: "RandSeed \<Rightarrow> RandSeed" where
  "ToInt32_lanes rs = (ToInt32 (lane rs 0), ToInt32 (lane rs 1), ToInt32 (lane rs 2), ToInt32 (lane rs 3))"

section \<open>The colour selector\<close>

definition createHSL :: "RandSeed \<Rightarrow> (real \<times> real \<times> real) \<times> RandSeed" where
  "createHSL rs =
     (let (h, rs1) = rand rs;
          (r2, rs2) = rand rs1;
          s = dadd (dmul r2 (fl64 (6 / 10))) (fl64 (4 / 10));
          (l1, rs3) = rand rs2;
          (l2, rs4) = rand rs3;
          (l3, rs5) = rand rs4;
          (l4, rs6) = rand rs5;
          l = ddiv (dadd (dadd (dadd l1 l2) l3) l4) 4
      in ((h, s, l), rs6))"

definition hue2rgb :: "real \<Rightarrow> real \<Rightarrow> real \<Rightarrow> real" where
  "hue2rgb p q t0 =
     (let t1 = (if t0 < 0 then dadd t0 1 else t0);
          t = (if t1 > 1 then dsub t1 1 else t1)
      in if t < ddiv 1 6 then dadd p (dmul (dmul (dsub q p) 6) t)
         else if t < ddiv 1 2 then q
         else if t < ddiv 2 3 then dadd p (dmul (dmul (dsub q p) (dsub (ddiv 2 3) t)) 6)
         else p)"

text \<open>\<^verbatim>\<open>Math.round\<close> gives the nearest integer, a tie going up; it is exact.\<close>

definition Math_round :: "real \<Rightarrow> int" where
  "Math_round x = \<lfloor>x + 1 / 2\<rfloor>"

definition hslToRgb :: "real \<Rightarrow> real \<Rightarrow> real \<Rightarrow> RGB" where
  "hslToRgb h s l =
     (let (r, g, b) =
            (if s = 0 then (l, l, l)
             else let q = (if l < fl64 (5 / 10) then dmul l (dadd 1 s) else dsub (dadd l s) (dmul l s));
                      p = dsub (dmul 2 l) q
                  in (hue2rgb p q (dadd h (ddiv 1 3)), hue2rgb p q h, hue2rgb p q (dsub h (ddiv 1 3))))
      in (Math_round (dmul r 255), Math_round (dmul g 255), Math_round (dmul b 255)))"

section \<open>The grid synthesizer\<close>

datatype error = RangeError

text \<open>
  The body of the \<^verbatim>\<open>flatMap\<close> callback. \<^verbatim>\<open>row[x] = v\<close> is always a write at
  \<open>x = row.length\<close>, which appends. \<^verbatim>\<open>row.slice(0, mirrorWidth)\<close> is \<open>take\<close>: a negative
  \<open>mirrorWidth\<close> only occurs for a negative width, where the row is empty. The product
  \<^verbatim>\<open>rand() * 2.3\<close> is written exactly: the rounded product of doubles has the same
  floor (lemma \<open>draw_cell_rounded\<close>).
\<close>

definition draw_cell :: "nat \<Rightarrow> int list \<times> RandSeed \<Rightarrow> int list \<times> RandSeed" where
  "draw_cell x = (\<lambda>(row, rs). let (r, rs') = rand rs in (row @ [\<lfloor>r * (23 / 10)\<rfloor>], rs'))"

definition image_row :: "int \<Rightarrow> int \<Rightarrow> RandSeed \<Rightarrow> int list \<times> RandSeed" where
  "image_row dataWidth mirrorWidth rs =
     (let (row, rs') = fold draw_cell [0..<nat dataWidth] ([], rs);
          reversed = rev (take (nat mirrorWidth) row)
      in (row @ reversed, rs'))"

definition flatMap_step ::
  "int \<Rightarrow> int \<Rightarrow> nat \<Rightarrow> int list \<times> RandSeed \<Rightarrow> int list \<times> RandSeed" where
  "flatMap_step dataWidth mirrorWidth y =
     (\<lambda>(data, rs). let (row, rs') = image_row dataWidth mirrorWidth rs in (data @ row, rs'))"

text \<open>\<^verbatim>\<open>Array(height)\<close> throws a RangeError unless \<open>0 \<le> height < 2^32\<close>.\<close>

definition createImageData :: "int \<Rightarrow> int \<Rightarrow> RandSeed \<Rightarrow> (error + int list) \<times> RandSeed" where
  "createImageData width height rs =
     (let dataWidth = \<lceil>real_of_int width / 2\<rceil>;
          mirrorWidth = width - dataWidth
      in if height < 0 \<or> 2 ^ 32 \<le> height then (Inl RangeError, rs)
         else let (data, rs') = fold (flatMap_step dataWidth mirrorWidth) [0..<nat height] ([], rs)
              in (Inr data, rs'))"

section \<open>The raster compositor\<close>

record Options =
  opt_size :: "int option"
  opt_scale :: "int option"
  opt_seed :: "jsstring option"
  opt_fgColor :: "RGB option"
  opt_bgColor :: "RGB option"
  opt_spotColor :: "RGB option"

record DefaultOptions =
  def_scale :: int
  def_size :: int
  def_seed :: jsstring
  def_fgColor :: RGB
  def_bgColor :: RGB
  def_spotColor :: RGB

text \<open>The two module-level variables of \<^verbatim>\<open>blocky.ts\<close>.\<close>

record globals =
  randseed :: RandSeed
  defaultOptions :: DefaultOptions

definition initial_globals :: globals where
  "initial_globals =
     \<lparr>randseed = (0, 0, 0, 0),
      defaultOptions = \<lparr>def_scale = 24, def_size = 7, def_seed = [],
        def_fgColor = (0, 0, 0), def_bgColor = (255, 255, 255), def_spotColor = (0, 0, 0)\<rparr>\<rparr>"

text \<open>
  Modelled from the spec: the sample buffer of the external encoder (\<^verbatim>\<open>pngjs\<close>), a flat
  sequence of RGBA bytes, four for each of the \<open>width * height\<close> pixels, zero before the
  compositor writes it; it holds no sample when a dimension is not positive, and the
  compositor writes none then: its loops over the scale or over the grid are empty. A
  write to a byte array stores the value modulo 256 and is ignored outside the array.
  Limits of memory are not modelled: the encoder keeps width and height as 32-bit
  integers, and an image of \<open>2^31\<close> pixels a side cannot be allocated.
\<close>

record png =
  png_width :: int
  png_height :: int
  png_data :: "8 word list"

definition new_PNG :: "int \<Rightarrow> int \<Rightarrow> png" where
  "new_PNG w h =
     \<lparr>png_width = w, png_height = h,
      png_data = (if 0 < w \<and> 0 < h then replicate (nat (4 * w * h)) 0 else [])\<rparr>"

definition buf_set :: "8 word list \<Rightarrow> int \<Rightarrow> int \<Rightarrow> 8 word list" where
  "buf_set buf o' v = (if 0 \<le> o' \<and> o' < int (length buf) then buf[nat o' := of_int v] else buf)"

text \<open>
  \<^verbatim>\<open>Math.sqrt\<close> of the grid length. The grid always has \<open>size * size\<close> cells, and the
  square root of a perfect square is exact.
\<close>

fun sqrt_upto :: "nat \<Rightarrow> nat \<Rightarrow> nat" where
  "sqrt_upto 0 n = 0"
| "sqrt_upto (Suc k) n = (if Suc k * Suc k \<le> n then Suc k else sqrt_upto k n)"

definition Math_sqrt :: "nat \<Rightarrow> nat" where
  "Math_sqrt n = sqrt_upto n n"

definition cell_color :: "DefaultOptions \<Rightarrow> int \<Rightarrow> RGB" where
  "cell_color options v =
     (if v = 0 then def_bgColor options
      else if v = 1 then def_fgColor options
      else def_spotColor options)"

definition paint_pixel :: "DefaultOptions \<Rightarrow> RGB \<Rightarrow> int \<Rightarrow> nat \<Rightarrow> nat \<Rightarrow> 8 word list \<Rightarrow> 8 word list" where
  "paint_pixel options color idx y x buf =
     (let (r, g, b) = color;
          o' = idx + (int x + int y * def_size options * def_scale options) * 4
      in buf_set (buf_set (buf_set (buf_set buf o' r) (o' + 1) g) (o' + 2) b) (o' + 3) 255)"

definition paint_line :: "DefaultOptions \<Rightarrow> RGB \<Rightarrow> int \<Rightarrow> nat \<Rightarrow> 8 word list \<Rightarrow> 8 word list" where
  "paint_line options color idx y buf =
     fold (paint_pixel options color idx y) [0..<nat (def_scale options)] buf"

definition paint_cell :: "DefaultOptions \<Rightarrow> int list \<Rightarrow> nat \<Rightarrow> nat \<Rightarrow> 8 word list \<Rightarrow> 8 word list" where
  "paint_cell options imageData width i buf =
     (let row = i div width;
          col = i mod width;
          idx = (int row * def_size options * def_scale options + int col) * def_scale options * 4;
          color = cell_color options (imageData ! i)
      in fold (paint_line options color idx) [0..<nat (def_scale options)] buf)"

text \<open>The nullish coalescing operator \<^verbatim>\<open>a ?? b\<close>; an omitted option field is \<open>None\<close>.\<close>

definition nullish :: "'a option \<Rightarrow> 'a \<Rightarrow> 'a" where
  "nullish a b = (case a of Some v \<Rightarrow> v | None \<Rightarrow> b)"

text \<open>
  Modelled from the spec: \<^verbatim>\<open>PNG.sync.write\<close> of the external encoder takes width, height
  and the sample buffer, and its errors reach the caller unchanged. The header of the
  image stores width and height as unsigned 32-bit integers, and writing a negative one
  throws a RangeError. The encoded bytes are otherwise a lossless function of the image,
  which stands for them here.
\<close>

definition PNG_sync_write :: "png \<Rightarrow> error + png" where
  "PNG_sync_write p = (if png_width p < 0 \<or> png_height p < 0 then Inl RangeError else Inr p)"

text \<open>
  \<open>createBuffer\<close> returns what the encoder returns. \<open>rnd\<close> is the hexadecimal string
  drawn from \<^verbatim>\<open>Math.random\<close>, used when no seed is given. \<^verbatim>\<open>options\<close> is an alias of
  \<^verbatim>\<open>defaultOptions\<close>, so every assignment to it is an assignment to the module-level
  variable, kept also when the array allocation or the encoder throws.
\<close>

definition createBuffer :: "jsstring \<Rightarrow> Options \<Rightarrow> globals \<Rightarrow> (error + png) \<times> globals" where
  "createBuffer rnd optsParam g =
     (let options = defaultOptions g;
          options = options\<lparr>def_scale := nullish (opt_scale optsParam) (def_scale options)\<rparr>;
          options = options\<lparr>def_size := nullish (opt_size optsParam) (def_size options)\<rparr>;
          options = options\<lparr>def_seed := nullish (opt_seed optsParam) rnd\<rparr>;
          rs = createRandSeed (def_seed options) (randseed g);
          ((h, s, l), rs) = createHSL rs;
          rgb = hslToRgb h s l;
          options = options\<lparr>def_fgColor := nullish (opt_fgColor optsParam) rgb\<rparr>;
          options = options\<lparr>def_bgColor := nullish (opt_bgColor optsParam) (def_bgColor options)\<rparr>;
          options = options\<lparr>def_spotColor := nullish (opt_spotColor optsParam) rgb\<rparr>;
          (res, rs) = createImageData (def_size options) (def_size options) rs;
          g' = \<lparr>randseed = rs, defaultOptions = options\<rparr>
      in case res of
           Inl e \<Rightarrow> (Inl e, g')
         | Inr imageData \<Rightarrow>
             let imageWidth = def_size options * def_scale options;
                 png = new_PNG imageWidth imageWidth;
                 width = Math_sqrt (length imageData);
                 buf = fold (paint_cell options imageData width) [0..<length imageData] (png_data png)
             in (PNG_sync_write (png\<lparr>png_data := buf\<rparr>), g'))"

text \<open>
  The compositor loop of \<open>createBuffer\<close> on its own, the options object after the
  assignments, and the grid drawn by a call, used in the statements and proofs.
\<close>

definition merged_options :: "jsstring \<Rightarrow> Options \<Rightarrow> globals \<Rightarrow> DefaultOptions" where
  "merged_options rnd optsParam g =
     (let sd = nullish (opt_seed optsParam) rnd;
          ((h, s, l), rs) = createHSL (createRandSeed sd (randseed g));
          rgb = hslToRgb h s l
      in \<lparr>def_scale = nullish (opt_scale optsParam) (def_scale (defaultOptions g)),
          def_size = nullish (opt_size optsParam) (def_size (defaultOptions g)),
          def_seed = sd,
          def_fgColor = nullish (opt_fgColor optsParam) rgb,
          def_bgColor = nullish (opt_bgColor optsParam) (def_bgColor (defaultOptions g)),
          def_spotColor = nullish (opt_spotColor optsParam) rgb\<rparr>)"

definition grid_draw :: "jsstring \<Rightarrow> Options \<Rightarrow> globals \<Rightarrow> (error + int list) \<times> RandSeed" where
  "grid_draw rnd optsParam g =
     (let sd = nullish (opt_seed optsParam) rnd;
          N = nullish (opt_size optsParam) (def_size (defaultOptions g))
      in createImageData N N (snd (createHSL (createRandSeed sd (randseed g)))))"

definition composite :: "DefaultOptions \<Rightarrow> int list \<Rightarrow> png" where
  "composite options imageData =
     (let imageWidth = def_size options * def_scale options;
          png = new_PNG imageWidth imageWidth;
          width = Math_sqrt (length imageData);
          buf = fold (paint_cell options imageData width) [0..<length imageData] (png_data png)
      in png\<lparr>png_data := buf\<rparr>)"

text \<open>
  The four bytes a colour is stored as; \<open>pixel p y x\<close> reads the four bytes of the pixel
  in row \<open>y\<close> and column \<open>x\<close> of the row-major buffer. \<open>painted P px buf0 buf\<close>: \<open>buf\<close> is
  \<open>buf0\<close> with the pixels in \<open>P\<close> overwritten by \<open>px\<close>. \<open>cell_of n s p\<close> is the grid cell
  whose block holds pixel \<open>p\<close>.
\<close>

definition rgba :: "RGB \<Rightarrow> 8 word list" where
  "rgba color = (case color of (r, g, b) \<Rightarrow> [of_int r, of_int g, of_int b, 255])"

definition painted :: "(nat \<Rightarrow> bool) \<Rightarrow> 8 word list \<Rightarrow> 8 word list \<Rightarrow> 8 word list \<Rightarrow> bool" where
  "painted P px buf0 buf \<longleftrightarrow>
     length buf = length buf0 \<and>
     (\<forall>j < length buf0. buf ! j = (if P (j div 4) then px ! (j mod 4) else buf0 ! j))"

definition cell_of :: "nat \<Rightarrow> nat \<Rightarrow> nat \<Rightarrow> nat" where
  "cell_of n s p = ((p div (n * s)) div s) * n + ((p mod (n * s)) div s)"

definition pixel :: "png \<Rightarrow> nat \<Rightarrow> nat \<Rightarrow> 8 word list" where
  "pixel p y x = take 4 (drop (4 * (y * nat (png_width p) + x)) (png_data p))"

text \<open>Inputs and states of the example runs.\<close>

definition optK :: Options where
  "optK = \<lparr>opt_size = Some 1, opt_scale = Some 1, opt_seed = Some (charCodes ''k''),
     opt_fgColor = None, opt_bgColor = None, opt_spotColor = None\<rparr>"

definition gK :: globals where
  "gK = \<lparr>randseed = (219955, 449004227, 219243, 449003931),
      defaultOptions = \<lparr>def_scale = 1, def_size = 1, def_seed = charCodes ''k'',
        def_fgColor = (19, 8, 8), def_bgColor = (255, 255, 255), def_spotColor = (19, 8, 8)\<rparr>\<rparr>"

definition optA :: Options where
  "optA = \<lparr>opt_size = Some 1, opt_scale = Some 1, opt_seed = Some [],
     opt_fgColor = None, opt_bgColor = Some (1, 2, 3), opt_spotColor = None\<rparr>"

definition optB :: Options where
  "optB = \<lparr>opt_size = Some 1, opt_scale = Some 1, opt_seed = Some [],
     opt_fgColor = None, opt_bgColor = None, opt_spotColor = None\<rparr>"


definition optC :: Options where
  "optC = \<lparr>opt_size = Some 3, opt_scale = Some 2, opt_seed = Some (charCodes ''blocky''),
     opt_fgColor = None, opt_bgColor = None, opt_spotColor = Some (1, 2, 3)\<rparr>"



definition options1 :: DefaultOptions where
  "options1 = \<lparr>def_scale = 1, def_size = 1, def_seed = [],
     def_fgColor = (0, 0, 0), def_bgColor = (255, 255, 255), def_spotColor = (9, 9, 9)\<rparr>"

text \<open>Predicates used in the statements about the grid and the colours.\<close>

definition cell_ok :: "int \<Rightarrow> bool" where
  "cell_ok v \<longleftrightarrow> v = 0 \<or> v = 1 \<or> v = 2"

definition row_ok :: "nat \<Rightarrow> int list \<Rightarrow> bool" where
  "row_ok n row \<longleftrightarrow> length row = n \<and> rev row = row \<and> list_all cell_ok row"

definition channel_ok :: "int \<Rightarrow> bool" where
  "channel_ok c \<longleftrightarrow> 0 \<le> c \<and> c \<le> 255"

text \<open>A row is its first \<open>ceil (N / 2)\<close> cells followed by the reverse of its first
  \<open>N - ceil (N / 2)\<close> cells.\<close>

definition row_built :: "int \<Rightarrow> int list \<Rightarrow> bool" where
  "row_built N row \<longleftrightarrow>
     (let dataWidth = \<lceil>real_of_int N / 2\<rceil>;
          mirrorWidth = N - dataWidth
      in nat dataWidth \<le> length row \<and>
         row = take (nat dataWidth) row @ rev (take (nat mirrorWidth) row))"

section \<open>Properties of the engine\<close>

lemma in32_ToInt32: "in32 (ToInt32 x)"
  using signed_take_bit_int_less_exp [of 31 x]
    signed_take_bit_int_greater_eq_minus_exp [of 31 x]
  by (simp add: in32_def ToInt32_def)

lemma ToInt32_id: "in32 x \<Longrightarrow> ToInt32 x = x"
  by (simp add: in32_def ToInt32_def signed_take_bit_int_eq_self)

lemma signed_take_bit_xor_int:
  "signed_take_bit n (a XOR b) = signed_take_bit n a XOR signed_take_bit n (b::int)"
  by (rule bit_eqI) (simp add: bit_signed_take_bit_iff bit_xor_iff)

lemma js_xor_eq: "js_xor a b = ToInt32 (a XOR b)"
  by (simp add: js_xor_def ToInt32_def signed_take_bit_xor_int)

lemma in32_js_xor: "in32 (js_xor a b)"
  by (simp add: js_xor_eq in32_ToInt32)

lemma in32_js_sar: "in32 (js_sar a n)"
proof -
  have "signed_take_bit 31 (drop_bit n (signed_take_bit 31 a)) = drop_bit n (signed_take_bit 31 a)"
    by (rule bit_eqI) (auto simp add: bit_signed_take_bit_iff bit_drop_bit_eq min_def)
  then have "ToInt32 (js_sar a n) = js_sar a n"
    by (simp add: js_sar_def ToInt32_def)
  then show ?thesis
    using in32_ToInt32 [of "js_sar a n"] by simp
qed

lemma js_xor_neg_iff: "js_xor a b < 0 \<longleftrightarrow> (ToInt32 a < 0) \<noteq> (ToInt32 b < 0)"
  by (simp add: js_xor_def xor_negative_int_iff)

lemma js_sar_neg_iff: "js_sar a n < 0 \<longleftrightarrow> ToInt32 a < 0"
  by (simp add: js_sar_def drop_bit_negative_int_iff)

lemma xorshift_range: "0 \<le> xorshift a d \<and> xorshift a d < 2 ^ 31"
proof -
  define t where "t = js_xor a (js_shl a 11)"
  define n where "n = js_xor (js_xor (js_xor d (js_sar d 19)) t) (js_sar t 8)"
  have n: "xorshift a d = n"
    by (simp add: xorshift_def t_def n_def Let_def)
  have "\<not> n < 0"
    unfolding n_def
    by (simp add: js_xor_neg_iff js_sar_neg_iff ToInt32_id in32_js_xor in32_js_sar)
  moreover have "in32 n"
    unfolding n_def by (rule in32_js_xor)
  ultimately show ?thesis
    by (simp add: n in32_def)
qed

lemma two31: "js_ushr0 (js_shl 1 31) = 2 ^ 31"
  by (simp add: js_ushr0_def js_shl_def ToInt32_def ToUint32_def)

lemma snd_rand: "snd (rand (a, b, c, d)) = (b, c, d, xorshift a d)"
  by (simp add: rand_def xorshift_def Let_def)

lemma fst_rand: "fst (rand (a, b, c, d)) = real_of_int (xorshift a d) / 2 ^ 31"
proof -
  have "ToUint32 (xorshift a d) = xorshift a d"
    using xorshift_range [of a d] by (simp add: ToUint32_def take_bit_int_eq_self)
  then have "js_ushr0 (xorshift a d) = xorshift a d"
    by (simp add: js_ushr0_def)
  then show ?thesis
    by (simp add: rand_def Let_def two31 xorshift_def)
qed

text \<open>
  Claim C2. For every engine state, a call of \<open>rand\<close> returns a value \<open>r\<close> with
  \<open>0 \<le> r < 1\<close>. The value is the new fourth lane, read as an unsigned 32-bit integer,
  divided by \<open>2^31\<close>, where the lanes have moved down by one and the new fourth lane is
  \<open>lane3 ^ (lane3 >> 19) ^ t ^ (t >> 8)\<close> with \<open>t = lane0 ^ (lane0 << 11)\<close>. The sign
  bits of \<open>x\<close> and \<open>x >> n\<close> are equal, so the new lane is never negative and its
  unsigned value stays below \<open>2^31\<close>.
\<close>

theorem rand_unit_interval:
  "0 \<le> fst (rand rs) \<and> fst (rand rs) < 1 \<and>
   fst (rand rs) = real_of_int (ToUint32 (lane (snd (rand rs)) 3)) / 2 ^ 31 \<and>
   snd (rand rs) =
     (lane rs 1, lane rs 2, lane rs 3,
      let t = js_xor (lane rs 0) (js_shl (lane rs 0) 11)
      in js_xor (js_xor (js_xor (lane rs 3) (js_sar (lane rs 3) 19)) t) (js_sar t 8))"
proof -
  obtain a b c d where rs: "rs = (a, b, c, d)"
    by (cases rs) auto
  have r: "0 \<le> xorshift a d" "xorshift a d < 2 ^ 31"
    using xorshift_range [of a d] by simp_all
  have u: "ToUint32 (xorshift a d) = xorshift a d"
    using r by (simp add: ToUint32_def take_bit_int_eq_self)
  have "real_of_int (xorshift a d) < 2 ^ 31"
    using r(2) by (metis of_int_less_iff of_int_numeral of_int_power)
  then show ?thesis
    using r(1) by (simp add: rs fst_rand snd_rand u) (simp add: xorshift_def)
qed

section \<open>Properties of the rounding\<close>

lemma bitlen_pos: "1 \<le> n \<Longrightarrow> 1 \<le> bitlen n"
  using bitlen_eq_zero_iff [of n] bitlen_nonneg [of n] by linarith

lemma bitlen_lower: assumes "1 \<le> n" shows "(2::real) powi (bitlen n - 1) \<le> of_int n"
proof -
  have "(2::int) ^ nat (bitlen n - 1) \<le> n"
    using bitlen_bounds [of n] assms by simp
  then have "real_of_int (2 ^ nat (bitlen n - 1)) \<le> of_int n"
    by (rule of_int_le_iff [THEN iffD2])
  moreover have "(2::real) powi (bitlen n - 1) = 2 ^ nat (bitlen n - 1)"
    using bitlen_pos [OF assms] by (simp add: power_int_def)
  ultimately show ?thesis by simp
qed

lemma bitlen_upper: assumes "1 \<le> n" shows "of_int n + 1 \<le> (2::real) powi (bitlen n)"
proof -
  have "n < 2 ^ nat (bitlen n)"
    using bitlen_bounds [of n] assms by simp
  then have "n + 1 \<le> 2 ^ nat (bitlen n)" by simp
  then have "real_of_int (n + 1) \<le> real_of_int (2 ^ nat (bitlen n))"
    by (rule of_int_le_iff [THEN iffD2])
  moreover have "(2::real) powi (bitlen n) = 2 ^ nat (bitlen n)"
    using bitlen_nonneg [of n] by (simp add: power_int_def)
  ultimately show ?thesis by simp
qed

lemma ilog2_lower: assumes "x \<noteq> 0" shows "2 powi (ilog2 x) \<le> \<bar>x\<bar>"
proof (cases "1 \<le> \<bar>x\<bar>")
  case True
  define n where "n = \<lfloor>\<bar>x\<bar>\<rfloor>"
  have n: "1 \<le> n" using True by (simp add: n_def le_floor_iff)
  have "2 powi (bitlen n - 1) \<le> real_of_int n" by (rule bitlen_lower [OF n])
  also have "\<dots> \<le> \<bar>x\<bar>" by (simp add: n_def)
  finally show ?thesis using True by (simp add: ilog2_def n_def)
next
  case False
  define y where "y = 1 / \<bar>x\<bar>"
  define c where "c = \<lceil>y\<rceil> - 1"
  have x: "0 < \<bar>x\<bar>" "\<bar>x\<bar> < 1" using assms False by simp_all
  have y: "1 < y" using x by (simp add: y_def)
  have c: "1 \<le> c" using y by (simp add: c_def less_ceiling_iff)
  have "y \<le> of_int c + 1" by (simp add: c_def)
  also have "\<dots> \<le> 2 powi (bitlen c)" by (rule bitlen_upper [OF c])
  finally have "y \<le> 2 powi (bitlen c)" .
  then have "1 / \<bar>x\<bar> \<le> 2 powi (bitlen c)" by (simp add: y_def)
  then have "1 \<le> 2 powi (bitlen c) * \<bar>x\<bar>" using x(1) by (simp add: field_simps)
  then have "inverse (2 powi (bitlen c)) \<le> \<bar>x\<bar>"
    by (simp add: field_simps)
  then have "2 powi (- bitlen c) \<le> \<bar>x\<bar>" by (simp add: power_int_minus)
  then show ?thesis using False by (simp add: ilog2_def c_def y_def)
qed

lemma ilog2_upper: assumes "x \<noteq> 0" shows "\<bar>x\<bar> < 2 powi (ilog2 x + 1)"
proof (cases "1 \<le> \<bar>x\<bar>")
  case True
  define n where "n = \<lfloor>\<bar>x\<bar>\<rfloor>"
  have n: "1 \<le> n" using True by (simp add: n_def le_floor_iff)
  have "\<bar>x\<bar> < of_int n + 1" by (simp add: n_def)
  also have "\<dots> \<le> 2 powi (bitlen n)" by (rule bitlen_upper [OF n])
  finally show ?thesis using True by (simp add: ilog2_def n_def)
next
  case False
  define y where "y = 1 / \<bar>x\<bar>"
  define c where "c = \<lceil>y\<rceil> - 1"
  have x: "0 < \<bar>x\<bar>" "\<bar>x\<bar> < 1" using assms False by simp_all
  have y: "1 < y" using x by (simp add: y_def)
  have c: "1 \<le> c" using y by (simp add: c_def less_ceiling_iff)
  have "2 powi (bitlen c - 1) \<le> real_of_int c" by (rule bitlen_lower [OF c])
  also have "\<dots> < y" by (simp add: c_def) linarith
  finally have "2 powi (bitlen c - 1) < 1 / \<bar>x\<bar>" by (simp add: y_def)
  then have "2 powi (bitlen c - 1) * \<bar>x\<bar> < 1" using x(1) by (simp add: field_simps)
  then have "\<bar>x\<bar> < inverse (2 powi (bitlen c - 1))"
    by (simp add: field_simps)
  also have "\<dots> = 2 powi (- bitlen c + 1)" by (simp flip: power_int_minus)
  finally show ?thesis using False by (simp add: ilog2_def c_def y_def)
qed

lemma round_half_even_error: "\<bar>of_int (round_half_even y) - y\<bar> \<le> 1 / 2"
  unfolding round_half_even_def Let_def by (auto simp: abs_if) linarith+

lemma round_half_even_near:
  assumes "\<bar>y - of_int m\<bar> < 1 / 2 \<or> (\<bar>y - of_int m\<bar> = 1 / 2 \<and> even m)"
  shows "round_half_even y = m"
proof (cases "\<bar>y - of_int m\<bar> < 1 / 2")
  case True
  have "\<bar>of_int (round_half_even y) - y\<bar> \<le> 1 / 2" by (rule round_half_even_error)
  then have "\<bar>real_of_int (round_half_even y) - of_int m\<bar> < 1" using True by linarith
  then have "\<bar>real_of_int (round_half_even y - m)\<bar> < 1" by simp
  then have "\<bar>round_half_even y - m\<bar> < 1" by linarith
  then show ?thesis by simp
next
  case False
  then have tie: "\<bar>y - of_int m\<bar> = 1 / 2" and m: "even m" using assms by simp_all
  show ?thesis
  proof (cases "of_int m \<le> y")
    case True
    then have y: "y = of_int m + 1 / 2" using tie by simp
    then have "\<lfloor>y\<rfloor> = m" by (simp add: floor_eq_iff)
    then show ?thesis using m y by (simp add: round_half_even_def)
  next
    case False
    then have y: "y = of_int (m - 1) + 1 / 2" using tie by simp
    then have f: "\<lfloor>y\<rfloor> = m - 1" by (simp only: floor_eq_iff) simp
    have "y - of_int (m - 1) = 1 / 2" using y by simp
    then show ?thesis using m f by (simp add: round_half_even_def)
  qed
qed

lemma round_half_even_int: "round_half_even (of_int n) = n"
  by (rule round_half_even_near) simp

lemma round_half_even_nonneg: "0 \<le> y \<Longrightarrow> 0 \<le> round_half_even y"
  using round_half_even_error [of y] by linarith

lemma round_half_even_nonpos: "y \<le> 0 \<Longrightarrow> round_half_even y \<le> 0"
  using round_half_even_error [of y] by linarith

lemma pow2_less_cancel: "(2::real) powi a < 2 powi b \<Longrightarrow> a < b"
  using power_int_increasing [of b a "2::real"] by (cases "a < b") simp_all

lemma fl64_diff:
  assumes "x \<noteq> 0"
  shows "\<bar>fl64 x - x\<bar> \<le> 2 powi (max (ilog2 x) (- 1022) - 52) / 2"
proof -
  define ulp :: real where "ulp = 2 powi (max (ilog2 x) (- 1022) - 52)"
  have ulp: "0 < ulp" by (simp add: ulp_def)
  have "fl64 x - x = (of_int (round_half_even (x / ulp)) - x / ulp) * ulp"
    using assms ulp by (simp add: fl64_def Let_def ulp_def [symmetric] algebra_simps)
  then have "\<bar>fl64 x - x\<bar> = \<bar>of_int (round_half_even (x / ulp)) - x / ulp\<bar> * ulp"
    using ulp by (simp add: abs_mult)
  also have "\<dots> \<le> (1 / 2) * ulp"
    by (rule mult_right_mono [OF round_half_even_error]) (use ulp in simp)
  finally show ?thesis by (simp add: ulp_def)
qed

lemma fl64_error:
  assumes "\<bar>x\<bar> < 2 ^ k"
  shows "\<bar>fl64 x - x\<bar> \<le> 2 ^ k / 2 ^ 54"
proof (cases "x = 0")
  case True
  then show ?thesis by (simp add: fl64_def)
next
  case False
  have "2 powi (ilog2 x) \<le> \<bar>x\<bar>" by (rule ilog2_lower [OF False])
  also have "\<bar>x\<bar> < 2 powi (int k)" using assms by simp
  finally have "ilog2 x < int k" by (rule pow2_less_cancel)
  then have "max (ilog2 x) (- 1022) - 52 \<le> int k - 53" by simp
  then have "(2::real) powi (max (ilog2 x) (- 1022) - 52) \<le> 2 powi (int k - 53)"
    by (rule power_int_increasing) simp
  also have "\<dots> = 2 ^ k / 2 ^ 53" by (simp add: power_int_diff)
  finally have "(2::real) powi (max (ilog2 x) (- 1022) - 52) / 2 \<le> 2 ^ k / 2 ^ 54" by simp
  with fl64_diff [OF False] show ?thesis by linarith
qed

lemma fl64_nonneg: assumes "0 \<le> x" shows "0 \<le> fl64 x"
proof (cases "x = 0")
  case True
  then show ?thesis by (simp add: fl64_def)
next
  case False
  define ulp :: real where "ulp = 2 powi (max (ilog2 x) (- 1022) - 52)"
  have ulp: "0 < ulp" by (simp add: ulp_def)
  have "0 \<le> x / ulp" using assms ulp by simp
  then have "0 \<le> round_half_even (x / ulp)" by (rule round_half_even_nonneg)
  then show ?thesis
    using False ulp by (simp add: fl64_def Let_def ulp_def [symmetric])
qed

lemma fl64_nonpos: assumes "x \<le> 0" shows "fl64 x \<le> 0"
proof (cases "x = 0")
  case True
  then show ?thesis by (simp add: fl64_def)
next
  case False
  define ulp :: real where "ulp = 2 powi (max (ilog2 x) (- 1022) - 52)"
  have ulp: "0 < ulp" by (simp add: ulp_def)
  have "x / ulp \<le> 0" using assms ulp by (simp add: divide_nonpos_pos)
  then have "round_half_even (x / ulp) \<le> 0" by (rule round_half_even_nonpos)
  then have "real_of_int (round_half_even (x / ulp)) * ulp \<le> 0"
    using ulp by (simp add: mult_le_0_iff)
  then show ?thesis
    using False by (simp add: fl64_def Let_def ulp_def [symmetric])
qed

lemma fl64_binade:
  assumes "2 ^ 52 \<le> \<bar>x\<bar> * 2 ^ j" and "\<bar>x\<bar> * 2 ^ j < 2 ^ 53" and "j \<le> 1074"
  shows "fl64 x = of_int (round_half_even (x * 2 ^ j)) / 2 ^ j"
proof -
  have x: "x \<noteq> 0" using assms(1) by auto
  have "2 powi (ilog2 x) \<le> \<bar>x\<bar>" by (rule ilog2_lower [OF x])
  also have "\<bar>x\<bar> < 2 ^ 53 / 2 ^ j" using assms(2) by (simp add: field_simps)
  also have "\<dots> = 2 powi (53 - int j)" by (simp add: power_int_diff)
  finally have up: "ilog2 x < 53 - int j" by (rule pow2_less_cancel)
  have "(2::real) powi (52 - int j) = 2 ^ 52 / 2 ^ j" by (simp add: power_int_diff)
  also have "\<dots> \<le> \<bar>x\<bar>" using assms(1) by (simp add: field_simps)
  also have "\<bar>x\<bar> < 2 powi (ilog2 x + 1)" by (rule ilog2_upper [OF x])
  finally have "52 - int j < ilog2 x + 1" by (rule pow2_less_cancel)
  with up have e: "ilog2 x = 52 - int j" by simp
  have "max (ilog2 x) (- 1022) - 52 = - int j" using assms(3) by (simp add: e)
  then have ulp: "(2::real) powi (max (ilog2 x) (- 1022) - 52) = 1 / 2 ^ j"
    by (simp add: power_int_minus_divide)
  show ?thesis
    using x by (simp add: fl64_def Let_def ulp)
qed

lemma fl64_eval:
  assumes "2 ^ 52 \<le> \<bar>x\<bar> * 2 ^ j" and "\<bar>x\<bar> * 2 ^ j < 2 ^ 53" and "j \<le> 1074"
    and "\<bar>x * 2 ^ j - of_int m\<bar> < 1 / 2 \<or> (\<bar>x * 2 ^ j - of_int m\<bar> = 1 / 2 \<and> even m)"
  shows "fl64 x = of_int m / 2 ^ j"
  using fl64_binade [OF assms(1-3)] round_half_even_near [OF assms(4)] by simp

lemma fl64_ge:
  assumes "2 ^ 52 \<le> \<bar>x\<bar> * 2 ^ j" and "\<bar>x\<bar> * 2 ^ j < 2 ^ 53" and "j \<le> 1074"
    and "of_int m \<le> x * 2 ^ j"
  shows "of_int m / 2 ^ j \<le> fl64 x"
proof -
  have "\<bar>of_int (round_half_even (x * 2 ^ j)) - x * 2 ^ j\<bar> \<le> 1 / 2"
    by (rule round_half_even_error)
  then have "real_of_int m - 1 / 2 \<le> of_int (round_half_even (x * 2 ^ j))"
    using assms(4) by linarith
  then have "m \<le> round_half_even (x * 2 ^ j)"
    by linarith
  then have "real_of_int m \<le> of_int (round_half_even (x * 2 ^ j))"
    by (rule of_int_le_iff [THEN iffD2])
  then show ?thesis
    unfolding fl64_binade [OF assms(1-3)] by (simp add: divide_right_mono)
qed

lemma fl64_eval_big:
  assumes "2 ^ 52 \<le> \<bar>x\<bar> / 2 ^ i" and "\<bar>x\<bar> / 2 ^ i < 2 ^ 53"
    and "\<bar>x / 2 ^ i - of_int m\<bar> < 1 / 2 \<or> (\<bar>x / 2 ^ i - of_int m\<bar> = 1 / 2 \<and> even m)"
  shows "fl64 x = of_int m * 2 ^ i"
proof -
  have x: "x \<noteq> 0" using assms(1) by auto
  have "2 powi (ilog2 x) \<le> \<bar>x\<bar>" by (rule ilog2_lower [OF x])
  also have "\<bar>x\<bar> < 2 ^ 53 * 2 ^ i" using assms(2) by (simp add: field_simps)
  also have "\<dots> = 2 powi (53 + int i)" by (simp add: power_int_add)
  finally have up: "ilog2 x < 53 + int i" by (rule pow2_less_cancel)
  have "(2::real) powi (52 + int i) = 2 ^ 52 * 2 ^ i" by (simp add: power_int_add)
  also have "\<dots> \<le> \<bar>x\<bar>" using assms(1) by (simp add: field_simps)
  also have "\<bar>x\<bar> < 2 powi (ilog2 x + 1)" by (rule ilog2_upper [OF x])
  finally have "52 + int i < ilog2 x + 1" by (rule pow2_less_cancel)
  with up have e: "ilog2 x = 52 + int i" by simp
  have "max (ilog2 x) (- 1022) - 52 = int i" by (simp add: e)
  then have ulp: "(2::real) powi (max (ilog2 x) (- 1022) - 52) = 2 ^ i"
    by (simp only: power_int_of_nat)
  have "round_half_even (x / 2 ^ i) = m" by (rule round_half_even_near [OF assms(3)])
  then show ?thesis
    using x by (simp add: fl64_def Let_def ulp)
qed

lemma fl64_int:
  assumes "\<bar>n\<bar> < 2 ^ 53"
  shows "fl64 (of_int n) = of_int n"
proof (cases "n = 0")
  case True
  then show ?thesis by (simp add: fl64_def)
next
  case False
  define x where "x = real_of_int n"
  have x: "x \<noteq> 0" "1 \<le> \<bar>x\<bar>" using False by (simp_all add: x_def) 
  have "2 powi (ilog2 x) \<le> \<bar>x\<bar>" by (rule ilog2_lower [OF x(1)])
  also have "\<bar>x\<bar> < 2 powi 53"
  proof -
    have "real_of_int \<bar>n\<bar> < real_of_int (2 ^ 53)" using assms by (rule of_int_less_iff [THEN iffD2])
    then show ?thesis by (simp add: x_def)
  qed
  finally have up: "ilog2 x < 53" by (rule pow2_less_cancel)
  have "(2::real) powi 0 \<le> \<bar>x\<bar>" using x(2) by simp
  also have "\<bar>x\<bar> < 2 powi (ilog2 x + 1)" by (rule ilog2_upper [OF x(1)])
  finally have "0 < ilog2 x + 1" by (rule pow2_less_cancel)
  then have lo: "0 \<le> ilog2 x" by simp
  define t where "t = nat (52 - ilog2 x)"
  have "max (ilog2 x) (- 1022) - 52 = - int t" using lo up by (simp add: t_def)
  then have ulp: "(2::real) powi (max (ilog2 x) (- 1022) - 52) = 1 / 2 ^ t"
    by (simp add: power_int_minus_divide)
  have "x * 2 ^ t = real_of_int (n * 2 ^ t)" by (simp add: x_def)
  then have "round_half_even (x * 2 ^ t) = n * 2 ^ t"
    by (simp only: round_half_even_int)
  then have "fl64 x = real_of_int (n * 2 ^ t) / 2 ^ t"
    using x(1) by (simp add: fl64_def Let_def ulp)
  then show ?thesis by (simp add: x_def)
qed

lemma fl64_zero: "fl64 0 = 0"
  by (simp add: fl64_def)

lemma fl64_near:
  assumes "\<bar>x\<bar> \<le> 500"
  shows "\<bar>fl64 x - x\<bar> \<le> 1 / 10000000000000"
proof -
  have "\<bar>x\<bar> < 2 ^ 9" using assms by simp
  then have "\<bar>fl64 x - x\<bar> \<le> 2 ^ 9 / 2 ^ 54" by (rule fl64_error)
  also have "\<dots> \<le> (1::real) / 10000000000000" by simp
  finally show ?thesis .
qed

lemma dop_near:
  "\<bar>a + b\<bar> \<le> 500 \<Longrightarrow> \<bar>dadd a b - (a + b)\<bar> \<le> 1 / 10000000000000"
  "\<bar>a - b\<bar> \<le> 500 \<Longrightarrow> \<bar>dsub a b - (a - b)\<bar> \<le> 1 / 10000000000000"
  "\<bar>a * b\<bar> \<le> 500 \<Longrightarrow> \<bar>dmul a b - a * b\<bar> \<le> 1 / 10000000000000"
  "\<bar>a / b\<bar> \<le> 500 \<Longrightarrow> \<bar>ddiv a b - a / b\<bar> \<le> 1 / 10000000000000"
  by (simp_all only: dadd_def dsub_def dmul_def ddiv_def fl64_near)

lemma dint_exact: "\<bar>n\<bar> < 2 ^ 53 \<Longrightarrow> dint n = n"
  by (simp add: dint_def fl64_int)

lemma abs_mult_unit:
  fixes a t A :: real
  assumes "\<bar>a\<bar> \<le> A" "0 \<le> t" "t \<le> 1"
  shows "\<bar>a * t\<bar> \<le> A"
proof -
  have "\<bar>a * t\<bar> = \<bar>a\<bar> * t" using assms(2) by (simp add: abs_mult)
  also have "\<dots> \<le> \<bar>a\<bar> * 1" by (rule mult_left_mono) (use assms in simp_all)
  finally show ?thesis using assms(1) by simp
qed

section \<open>Properties of the grid and of the colours\<close>

lemma rand_bounds: "0 \<le> fst (rand rs) \<and> fst (rand rs) < 1"
proof -
  obtain a b c d where rs: "rs = (a, b, c, d)"
    by (cases rs) auto
  have r: "0 \<le> xorshift a d" "xorshift a d < 2 ^ 31"
    using xorshift_range [of a d] by simp_all
  have "real_of_int (xorshift a d) < 2 ^ 31"
    using r(2) by (metis of_int_less_iff of_int_numeral of_int_power)
  then show ?thesis
    using r(1) by (simp add: rs fst_rand)
qed

lemma cell_value_range:
  fixes r :: real
  assumes "0 \<le> r" "r < 1"
  shows "cell_ok \<lfloor>r * (23 / 10)\<rfloor>"
proof -
  have "0 \<le> \<lfloor>r * (23 / 10)\<rfloor>"
    using assms by simp
  moreover have "\<lfloor>r * (23 / 10)\<rfloor> < 3"
    using assms by (simp add: floor_less_iff)
  ultimately show ?thesis
    unfolding cell_ok_def by presburger
qed

lemma fold_draw_cell:
  "\<exists>vs rs'. fold draw_cell xs (row, rs) = (row @ vs, rs') \<and> length vs = length xs \<and>
     list_all cell_ok vs"
proof (induction xs arbitrary: row rs)
  case Nil
  have "fold draw_cell [] (row, rs) = (row @ [], rs) \<and> length ([] :: int list) = length ([] :: nat list)
          \<and> list_all cell_ok []"
    by simp
  then show ?case by blast
next
  case (Cons x xs)
  obtain r rs1 where r: "rand rs = (r, rs1)"
    by (metis surj_pair)
  have ok: "cell_ok \<lfloor>r * (23 / 10)\<rfloor>"
    using rand_bounds [of rs] cell_value_range [of r] by (simp add: r)
  obtain vs rs' where vs:
    "fold draw_cell xs (row @ [\<lfloor>r * (23 / 10)\<rfloor>], rs1) = ((row @ [\<lfloor>r * (23 / 10)\<rfloor>]) @ vs, rs')"
    "length vs = length xs" "list_all cell_ok vs"
    using Cons.IH [of "row @ [\<lfloor>r * (23 / 10)\<rfloor>]" rs1] by blast
  have "fold draw_cell (x # xs) (row, rs) = (row @ (\<lfloor>r * (23 / 10)\<rfloor> # vs), rs')"
    using vs(1) by (simp add: draw_cell_def r)
  moreover have "length (\<lfloor>r * (23 / 10)\<rfloor> # vs) = length (x # xs)"
    using vs(2) by simp
  moreover have "list_all cell_ok (\<lfloor>r * (23 / 10)\<rfloor> # vs)"
    using vs(3) ok by simp
  ultimately show ?case by blast
qed

lemma ceil_half: "\<lceil>real_of_int w / 2\<rceil> = (w + 1) div 2"
  by linarith

lemma mirror_row:
  assumes "length vs = d" "d = m \<or> d = Suc m"
  shows "rev (vs @ rev (take m vs)) = vs @ rev (take m vs)"
proof -
  have "length (drop m vs) \<le> 1"
    using assms by auto
  then have "rev (drop m vs) = drop m vs"
    by (cases "drop m vs") auto
  then have "rev vs = drop m vs @ rev (take m vs)"
    by (metis append_take_drop_id rev_append)
  then show ?thesis
    by simp
qed

lemma image_row_ok:
  assumes "0 \<le> N"
  shows "row_ok (nat N) (fst (image_row \<lceil>real_of_int N / 2\<rceil> (N - \<lceil>real_of_int N / 2\<rceil>) rs))"
proof -
  define d where "d = nat \<lceil>real_of_int N / 2\<rceil>"
  define m where "m = nat (N - \<lceil>real_of_int N / 2\<rceil>)"
  obtain vs rs' where vs: "fold draw_cell [0..<d] ([], rs) = ([] @ vs, rs')"
    "length vs = length [0..<d]" "list_all cell_ok vs"
    using fold_draw_cell [of "[0..<d]" "[]" rs] by blast
  have dm: "d = m \<or> d = Suc m" "d + m = nat N"
    using assms by (auto simp add: d_def m_def ceil_half) 
  have row: "fst (image_row \<lceil>real_of_int N / 2\<rceil> (N - \<lceil>real_of_int N / 2\<rceil>) rs) = vs @ rev (take m vs)"
    using vs(1) by (simp add: image_row_def d_def [symmetric] m_def [symmetric])
  have "length (vs @ rev (take m vs)) = nat N"
    using vs(2) dm by auto
  moreover have "rev (vs @ rev (take m vs)) = vs @ rev (take m vs)"
    using mirror_row [of vs d m] vs(2) dm(1) by simp
  moreover have "list_all cell_ok (vs @ rev (take m vs))"
    using vs(3) by (auto simp add: list_all_iff dest: in_set_takeD)
  ultimately show ?thesis
    by (simp add: row row_ok_def)
qed

lemma fold_flatMap_step:
  assumes "0 \<le> N"
  shows "\<exists>rows rs'. fold (flatMap_step \<lceil>real_of_int N / 2\<rceil> (N - \<lceil>real_of_int N / 2\<rceil>)) ys (data, rs)
            = (data @ concat rows, rs') \<and> length rows = length ys \<and> list_all (row_ok (nat N)) rows"
proof (induction ys arbitrary: data rs)
  case Nil
  have "fold (flatMap_step \<lceil>real_of_int N / 2\<rceil> (N - \<lceil>real_of_int N / 2\<rceil>)) [] (data, rs)
          = (data @ concat [], rs) \<and> length ([] :: int list list) = length ([] :: nat list)
          \<and> list_all (row_ok (nat N)) []"
    by simp
  then show ?case by blast
next
  case (Cons y ys)
  let ?dw = "\<lceil>real_of_int N / 2\<rceil>"
  obtain row rs1 where row: "image_row ?dw (N - ?dw) rs = (row, rs1)"
    by (metis surj_pair)
  have ok: "row_ok (nat N) row"
    using image_row_ok [OF assms, of rs] by (simp add: row)
  obtain rows rs' where rows:
    "fold (flatMap_step ?dw (N - ?dw)) ys (data @ row, rs1) = ((data @ row) @ concat rows, rs')"
    "length rows = length ys" "list_all (row_ok (nat N)) rows"
    using Cons.IH [of "data @ row" rs1] by blast
  have "fold (flatMap_step ?dw (N - ?dw)) (y # ys) (data, rs) = (data @ concat (row # rows), rs')"
    using rows(1) by (simp add: flatMap_step_def row)
  moreover have "length (row # rows) = length (y # ys)"
    using rows(2) by simp
  moreover have "list_all (row_ok (nat N)) (row # rows)"
    using rows(3) ok by simp
  ultimately show ?case by blast
qed

lemma length_concat_rows:
  "list_all (\<lambda>row. length row = n) rows \<Longrightarrow> length (concat rows) = length rows * n"
  by (induction rows) auto

lemma nth_concat_rows:
  "list_all (\<lambda>row. length row = n) rows \<Longrightarrow> r < length rows \<Longrightarrow> i < n \<Longrightarrow>
     concat rows ! (r * n + i) = rows ! r ! i"
proof (induction rows arbitrary: r)
  case Nil
  then show ?case by simp
next
  case (Cons row rows)
  show ?case
  proof (cases r)
    case 0
    then show ?thesis using Cons.prems by (simp add: nth_append)
  next
    case (Suc r')
    have "concat rows ! (r' * n + i) = rows ! r' ! i"
      using Cons.IH [of r'] Cons.prems Suc by simp
    then show ?thesis
      using Cons.prems Suc by (simp add: nth_append)
  qed
qed

lemma createImageData_rows:
  assumes "0 \<le> N" "N < 2 ^ 32"
  shows "\<exists>rows rs'. createImageData N N rs = (Inr (concat rows), rs') \<and> length rows = nat N \<and>
           list_all (row_ok (nat N)) rows"
proof -
  let ?dw = "\<lceil>real_of_int N / 2\<rceil>"
  obtain rows rs' where rows:
    "fold (flatMap_step ?dw (N - ?dw)) [0..<nat N] ([], rs) = ([] @ concat rows, rs')"
    "length rows = length [0..<nat N]" "list_all (row_ok (nat N)) rows"
    using fold_flatMap_step [OF assms(1), of "[0..<nat N]" "[]" rs] by blast
  have "createImageData N N rs = (Inr (concat rows), rs')"
    using assms rows(1) by (simp add: createImageData_def Let_def)
  then show ?thesis
    using rows(2,3) by (metis length_upt minus_nat.diff_0)
qed

lemma createImageData_error:
  "fst (createImageData w h rs) = Inl RangeError \<longleftrightarrow> h < 0 \<or> 2 ^ 32 \<le> h"
  by (simp add: createImageData_def Let_def split: prod.splits)

lemma image_row_built:
  assumes "0 \<le> N"
  shows "row_built N (fst (image_row \<lceil>real_of_int N / 2\<rceil> (N - \<lceil>real_of_int N / 2\<rceil>) rs))"
proof -
  define d where "d = nat \<lceil>real_of_int N / 2\<rceil>"
  define m where "m = nat (N - \<lceil>real_of_int N / 2\<rceil>)"
  obtain vs rs' where vs: "fold draw_cell [0..<d] ([], rs) = ([] @ vs, rs')"
    "length vs = length [0..<d]"
    using fold_draw_cell [of "[0..<d]" "[]" rs] by blast
  have md: "m \<le> d"
    using assms by (simp add: d_def m_def ceil_half)
  have row: "fst (image_row \<lceil>real_of_int N / 2\<rceil> (N - \<lceil>real_of_int N / 2\<rceil>) rs) = vs @ rev (take m vs)"
    using vs(1) by (simp add: image_row_def d_def [symmetric] m_def [symmetric])
  have len: "length vs = d"
    using vs(2) by simp
  have "take d (vs @ rev (take m vs)) = vs" "take m (vs @ rev (take m vs)) = take m vs"
    using len md by simp_all
  then have "vs @ rev (take m vs)
      = take d (vs @ rev (take m vs)) @ rev (take m (vs @ rev (take m vs)))"
    by simp
  moreover have "d \<le> length (vs @ rev (take m vs))"
    using len by simp
  ultimately show ?thesis
    unfolding row row_built_def Let_def d_def [symmetric] m_def [symmetric] by blast
qed

lemma fold_flatMap_step_rows:
  assumes "\<And>rs. P (fst (image_row dw mw rs))"
  shows "\<exists>rows rs'. fold (flatMap_step dw mw) ys (data, rs) = (data @ concat rows, rs') \<and>
           length rows = length ys \<and> list_all P rows"
proof (induction ys arbitrary: data rs)
  case Nil
  have "fold (flatMap_step dw mw) [] (data, rs) = (data @ concat [], rs) \<and>
      length ([] :: int list list) = length ([] :: nat list) \<and> list_all P []"
    by simp
  then show ?case by blast
next
  case (Cons y ys)
  obtain row rs1 where row: "image_row dw mw rs = (row, rs1)"
    by (metis surj_pair)
  have ok: "P row"
    using assms [of rs] by (simp add: row)
  obtain rows rs' where rows:
    "fold (flatMap_step dw mw) ys (data @ row, rs1) = ((data @ row) @ concat rows, rs')"
    "length rows = length ys" "list_all P rows"
    using Cons.IH [of "data @ row" rs1] by blast
  have "fold (flatMap_step dw mw) (y # ys) (data, rs) = (data @ concat (row # rows), rs')"
    using rows(1) by (simp add: flatMap_step_def row)
  moreover have "length (row # rows) = length (y # ys)"
    using rows(2) by simp
  moreover have "list_all P (row # rows)"
    using rows(3) ok by simp
  ultimately show ?case by blast
qed

lemma createImageData_rows_built:
  assumes "0 \<le> N" "N < 2 ^ 32"
  shows "\<exists>rows rs'. createImageData N N rs = (Inr (concat rows), rs') \<and> length rows = nat N \<and>
           list_all (\<lambda>row. row_ok (nat N) row \<and> row_built N row) rows"
proof -
  let ?dw = "\<lceil>real_of_int N / 2\<rceil>"
  have "row_ok (nat N) (fst (image_row ?dw (N - ?dw) rs)) \<and> row_built N (fst (image_row ?dw (N - ?dw) rs))"
    for rs
    using image_row_ok [OF assms(1), of rs] image_row_built [OF assms(1), of rs] by simp
  then obtain rows rs' where rows:
    "fold (flatMap_step ?dw (N - ?dw)) [0..<nat N] ([], rs) = ([] @ concat rows, rs')"
    "length rows = length [0..<nat N]"
    "list_all (\<lambda>row. row_ok (nat N) row \<and> row_built N row) rows"
    using fold_flatMap_step_rows [of "\<lambda>row. row_ok (nat N) row \<and> row_built N row" ?dw "N - ?dw"
        "[0..<nat N]" "[]" rs]
    by blast
  have "createImageData N N rs = (Inr (concat rows), rs')"
    using assms rows(1) by (simp add: createImageData_def Let_def)
  moreover have "length rows = nat N"
    using rows(2) by simp
  ultimately show ?thesis
    using rows(3) by blast
qed

lemma take_drop_concat_rows:
  "list_all (\<lambda>row. length row = n) rows \<Longrightarrow> r < length rows \<Longrightarrow>
     take n (drop (r * n) (concat rows)) = rows ! r"
proof (induction rows arbitrary: r)
  case Nil
  then show ?case by simp
next
  case (Cons row rows)
  show ?case
  proof (cases r)
    case 0
    then show ?thesis using Cons.prems by simp
  next
    case (Suc r')
    have "take n (drop (r' * n) (concat rows)) = rows ! r'"
      using Cons.IH [of r'] Cons.prems Suc by simp
    moreover have "drop (Suc r' * n) (row @ concat rows) = drop (r' * n) (concat rows)"
      using Cons.prems(1) by simp
    ultimately show ?thesis
      using Suc by simp
  qed
qed

lemma createImageData_cells:
  assumes "fst (createImageData N N rs) = Inr grid"
  shows "list_all cell_ok grid"
proof -
  have "fst (createImageData N N rs) \<noteq> Inl RangeError"
    using assms by simp
  then have "0 \<le> N" "N < 2 ^ 32"
    by (simp_all add: createImageData_error)
  then obtain rows rs' where rows: "createImageData N N rs = (Inr (concat rows), rs')"
    "list_all (row_ok (nat N)) rows"
    using createImageData_rows [of N rs] by blast
  have "grid = concat rows"
    using assms by (simp add: rows(1))
  then show ?thesis
    using rows(2) by (auto simp add: list_all_iff row_ok_def)
qed

text \<open>
  The cell value \<^verbatim>\<open>Math.floor(rand() * 2.3)\<close> is the floor of the exact product. The
  value of \<open>rand\<close> is \<open>k / 2^31\<close>, so the exact product is a multiple of \<open>1 / (10 * 2^31)\<close>
  and, unless \<open>k = 0\<close>, it is at least that far from every integer; the product of the
  doubles differs from it by less than \<open>2 / 10^13\<close>.
\<close>

lemma draw_cell_rounded:
  "\<lfloor>dmul (fst (rand rs)) (fl64 (23 / 10))\<rfloor> = \<lfloor>fst (rand rs) * (23 / 10)\<rfloor>"
proof -
  obtain a b c d where rs: "rs = (a, b, c, d)"
    by (cases rs) auto
  define k where "k = xorshift a d"
  define r where "r = real_of_int k / 2147483648"
  define c23 where "c23 = fl64 (23 / 10)"
  define x where "x = r * (23 / 10)"
  define y where "y = dmul r c23"
  define n where "n = (23 * k) div 21474836480"
  define m where "m = (23 * k) mod 21474836480"
  have k: "0 \<le> k" "k < 2147483648"
    using xorshift_range [of a d] by (simp_all add: k_def)
  have r: "fst (rand rs) = r"
    by (simp add: rs fst_rand k_def r_def)
  have r01: "0 \<le> r" "r \<le> 1"
    using k by (simp_all add: r_def)
  have c23: "c23 = 2589569785738035 / 1125899906842624"
    unfolding c23_def using fl64_eval [of "23 / 10" 51 5179139571476070] by simp
  have km: "23 * k = 21474836480 * n + m"
    by (simp add: n_def m_def)
  have m: "0 \<le> m" "m < 21474836480"
    by (simp_all add: m_def)
  have x: "x = of_int n + of_int m / 21474836480"
  proof -
    have "real_of_int (23 * k) = real_of_int (21474836480 * n + m)"
      using km by simp
    then have "23 * real_of_int k = 21474836480 * of_int n + of_int m"
      by simp
    then show ?thesis
      by (simp add: x_def r_def field_simps)
  qed
  have "\<bar>c23 - 23 / 10\<bar> \<le> 2 / 10000000000000000"
    by (simp add: c23)
  then have "\<bar>(c23 - 23 / 10) * r\<bar> \<le> 2 / 10000000000000000"
    by (rule abs_mult_unit [OF _ r01])
  moreover have "(c23 - 23 / 10) * r = r * c23 - x"
    by (simp add: x_def algebra_simps)
  ultimately have ex: "\<bar>r * c23 - x\<bar> \<le> 2 / 10000000000000000"
    by simp
  have "\<bar>c23 * r\<bar> \<le> 3"
    by (rule abs_mult_unit [OF _ r01]) (simp add: c23)
  then have "\<bar>r * c23\<bar> \<le> 500"
    by (simp add: mult.commute)
  then have ey: "\<bar>y - r * c23\<bar> \<le> 1 / 10000000000000"
    unfolding y_def by (rule dop_near)
  show ?thesis
  proof (cases "m = 0")
    case True
    have "n < 3"
      using km k m by simp
    moreover have "0 \<le> n"
      using k by (simp add: n_def pos_imp_zdiv_nonneg_iff)
    ultimately consider "n = 0" | "n = 1" | "n = 2"
      by linarith
    moreover have "23 * k \<noteq> 21474836480" "23 * k \<noteq> 42949672960"
      by presburger+
    ultimately have "k = 0"
      using km True by cases simp_all
    then have "r = 0"
      by (simp add: r_def)
    then show ?thesis
      by (simp add: r dmul_def fl64_zero)
  next
    case False
    then have "1 \<le> m" "m \<le> 21474836479"
      using m by simp_all
    then have "1 \<le> real_of_int m" "real_of_int m \<le> 21474836479"
      by linarith+
    then have xb: "of_int n + 1 / 21474836480 \<le> x" "x \<le> of_int n + 1 - 1 / 21474836480"
      by (simp_all add: x field_simps)
    have "of_int n \<le> x" "x < of_int n + 1"
      using xb by linarith+
    then have fx: "\<lfloor>x\<rfloor> = n"
      by (simp add: floor_eq_iff)
    have "of_int n \<le> y" "y < of_int n + 1"
      using xb ex ey by argo+
    then have "\<lfloor>y\<rfloor> = n"
      by (simp add: floor_eq_iff)
    then have "\<lfloor>y\<rfloor> = \<lfloor>x\<rfloor>"
      by (simp only: fx)
    then show ?thesis
      unfolding r x_def y_def c23_def .
  qed
qed

text \<open>
  Claim C4. For every size \<open>N \<ge> 1\<close> and every engine state, every cell of the grid built
  by \<open>createImageData N N\<close> is 0, 1 or 2: a cell is \<open>floor (rand () * 2.3)\<close> and
  \<open>rand ()\<close> lies in \<open>[0, 1)\<close>. The grid has \<open>N * N\<close> cells. The array allocation
  refuses a size of \<open>2^32\<close> or more, and then no grid is built.
\<close>

theorem grid_cells_in_range:
  assumes "1 \<le> N"
  shows "case fst (createImageData N N rs) of
           Inl e \<Rightarrow> 2 ^ 32 \<le> N
         | Inr data \<Rightarrow> N < 2 ^ 32 \<and> length data = nat N * nat N \<and>
             (\<forall>v \<in> set data. v = 0 \<or> v = 1 \<or> v = 2)"
proof (cases "N < 2 ^ 32")
  case True
  obtain rows rs' where rows: "createImageData N N rs = (Inr (concat rows), rs')"
    "length rows = nat N" "list_all (row_ok (nat N)) rows"
    using createImageData_rows [of N rs] assms True by auto
  have len: "list_all (\<lambda>row. length row = nat N) rows"
    using rows(3) by (simp add: list_all_iff row_ok_def)
  have "\<forall>v \<in> set (concat rows). cell_ok v"
    using rows(3) by (auto simp add: list_all_iff row_ok_def)
  then show ?thesis
    using True rows(2) length_concat_rows [OF len] by (simp add: rows(1) cell_ok_def)
next
  case False
  then have "fst (createImageData N N rs) = Inl RangeError"
    by (simp add: createImageData_error)
  then show ?thesis
    using False by simp
qed

text \<open>Claim C4 at size 2.\<close>

theorem grid_cells_in_range_witness:
  "(1::int) \<le> 2 \<and>
   (case fst (createImageData 2 2 (97, 0, 0, 0)) of
      Inl e \<Rightarrow> 2 ^ 32 \<le> (2::int)
    | Inr data \<Rightarrow> (2::int) < 2 ^ 32 \<and> length data = nat 2 * nat 2 \<and>
        (\<forall>v \<in> set data. v = 0 \<or> v = 1 \<or> v = 2))"
proof -
  have h: "(1::int) \<le> 2" by simp
  show ?thesis
    using h grid_cells_in_range [OF h, of "(97, 0, 0, 0)"] by blast
qed

text \<open>
  Claim C5. For every size \<open>N \<ge> 1\<close> and every engine state, the grid built by
  \<open>createImageData N N\<close> consists of \<open>N\<close> rows of length \<open>N\<close>, and every row is
  mirror-symmetric: the cell at column \<open>i\<close> equals the cell at column \<open>N - 1 - i\<close>. A row
  is \<open>ceil (N / 2)\<close> drawn cells followed by the reverse of its first
  \<open>N - ceil (N / 2)\<close> cells.
\<close>

theorem grid_rows_mirrored:
  assumes "1 \<le> N"
  shows "case fst (createImageData N N rs) of
           Inl e \<Rightarrow> 2 ^ 32 \<le> N
         | Inr data \<Rightarrow> N < 2 ^ 32 \<and> length data = nat N * nat N \<and>
             (\<forall>r < nat N. \<forall>i < nat N.
                data ! (r * nat N + i) = data ! (r * nat N + (nat N - 1 - i))) \<and>
             (\<forall>r < nat N. row_built N (take (nat N) (drop (r * nat N) data)))"
proof (cases "N < 2 ^ 32")
  case True
  obtain rows rs' where rows: "createImageData N N rs = (Inr (concat rows), rs')"
    "length rows = nat N" "list_all (\<lambda>row. row_ok (nat N) row \<and> row_built N row) rows"
    using createImageData_rows_built [of N rs] assms True by auto
  have len: "list_all (\<lambda>row. length row = nat N) rows"
    using rows(3) by (simp add: list_all_iff row_ok_def)
  have "concat rows ! (r * nat N + i) = concat rows ! (r * nat N + (nat N - 1 - i))"
    if "r < nat N" "i < nat N" for r i
  proof -
    have row: "length (rows ! r) = nat N" "rev (rows ! r) = rows ! r"
      using rows(2,3) that(1) by (simp_all add: list_all_length row_ok_def)
    have "concat rows ! (r * nat N + i) = rows ! r ! i"
      using nth_concat_rows [OF len, of r i] rows(2) that by simp
    moreover have "concat rows ! (r * nat N + (nat N - 1 - i)) = rows ! r ! (nat N - 1 - i)"
      using nth_concat_rows [OF len, of r "nat N - 1 - i"] rows(2) that by simp
    moreover have "rev (rows ! r) ! i = rows ! r ! (nat N - 1 - i)"
      using rev_nth [of i "rows ! r"] row(1) that(2) by simp
    ultimately show ?thesis
      by (simp add: row(2))
  qed
  moreover have "row_built N (take (nat N) (drop (r * nat N) (concat rows)))" if "r < nat N" for r
  proof -
    have "take (nat N) (drop (r * nat N) (concat rows)) = rows ! r"
      using take_drop_concat_rows [OF len, of r] rows(2) that by simp
    moreover have "row_built N (rows ! r)"
      using rows(2,3) that by (simp add: list_all_length)
    ultimately show ?thesis by simp
  qed
  ultimately show ?thesis
    using True rows(2) length_concat_rows [OF len] by (simp add: rows(1))
next
  case False
  then have "fst (createImageData N N rs) = Inl RangeError"
    by (simp add: createImageData_error)
  then show ?thesis
    using False by simp
qed

text \<open>Claim C5 at size 3.\<close>

theorem grid_rows_mirrored_witness:
  "(1::int) \<le> 3 \<and>
   (case fst (createImageData 3 3 (97, 0, 0, 0)) of
      Inl e \<Rightarrow> 2 ^ 32 \<le> (3::int)
    | Inr data \<Rightarrow> (3::int) < 2 ^ 32 \<and> length data = nat 3 * nat 3 \<and>
        (\<forall>r < nat 3. \<forall>i < nat 3.
           data ! (r * nat 3 + i) = data ! (r * nat 3 + (nat 3 - 1 - i))) \<and>
        (\<forall>r < nat 3. row_built 3 (take (nat 3) (drop (r * nat 3) data))))"
proof -
  have h: "(1::int) \<le> 3" by simp
  show ?thesis
    using h grid_rows_mirrored [OF h, of "(97, 0, 0, 0)"] by blast
qed

lemma fl64_half: "fl64 (1 / 2) = 1 / 2"
  using fl64_eval [of "1 / 2" 53 "2 ^ 52"] by simp

lemma lerp_bounds:
  fixes p q lam lo hi :: real
  assumes "lo \<le> p" "p \<le> hi" "lo \<le> q" "q \<le> hi" "0 \<le> lam" "lam \<le> 1"
  shows "lo \<le> p + (q - p) * lam \<and> p + (q - p) * lam \<le> hi"
proof -
  have eq: "p + (q - p) * lam = (1 - lam) * p + lam * q" by (simp add: algebra_simps)
  have "(1 - lam) * lo \<le> (1 - lam) * p" "lam * lo \<le> lam * q"
    "(1 - lam) * p \<le> (1 - lam) * hi" "lam * q \<le> lam * hi"
    using assms by (simp_all add: mult_left_mono)
  then have "(1 - lam) * lo + lam * lo \<le> (1 - lam) * p + lam * q"
    "(1 - lam) * p + lam * q \<le> (1 - lam) * hi + lam * hi" by linarith+
  then show ?thesis unfolding eq by (simp add: algebra_simps)
qed

lemma lerp_approx:
  fixes p q lam c :: real
  assumes "- (1 / 100000000000) \<le> p" "p \<le> 1 + 1 / 100000000000" "- (1 / 100000000000) \<le> q" "q \<le> 1 + 1 / 100000000000"
    and "0 \<le> lam" "lam \<le> 1 + c" "0 \<le> c" "c \<le> 1 / 100000000000"
  shows "- (4 / 100000000000) \<le> p + (q - p) * lam \<and> p + (q - p) * lam \<le> 1 + 4 / 100000000000"
proof -
  define lam' where "lam' = min lam 1"
  have l': "0 \<le> lam'" "lam' \<le> 1" "0 \<le> lam - lam'" "lam - lam' \<le> c"
    using assms(5,6,7) by (simp_all add: lam'_def min_def)
  have main: "- (1 / 100000000000) \<le> p + (q - p) * lam' \<and> p + (q - p) * lam' \<le> 1 + 1 / 100000000000"
    by (rule lerp_bounds [OF assms(1-4) l'(1,2)])
  have "\<bar>q - p\<bar> \<le> 2" using assms(1-4) by simp
  then have "\<bar>(q - p) * (lam - lam')\<bar> \<le> 2 * c"
    unfolding abs_mult using l'(3,4) by (intro mult_mono) simp_all
  moreover have "p + (q - p) * lam = p + (q - p) * lam' + (q - p) * (lam - lam')"
    by (simp add: algebra_simps)
  ultimately show ?thesis using main assms(8) by linarith
qed

lemma hue2rgb_t_range:
  assumes "- (1 / 2) \<le> t0" "t0 \<le> 3 / 2"
  defines "t1 \<equiv> (if t0 < 0 then dadd t0 1 else t0)"
  defines "t \<equiv> (if t1 > 1 then dsub t1 1 else t1)"
  shows "0 \<le> t \<and> t \<le> 1"
proof -
  have t1: "0 \<le> t1 \<and> t1 \<le> 3 / 2"
  proof (cases "t0 < 0")
    case True
    have "0 \<le> fl64 (t0 + 1)" by (rule fl64_nonneg) (use assms(1) in simp)
    moreover have "\<bar>dadd t0 1 - (t0 + 1)\<bar> \<le> 1 / 10000000000000"
      by (rule dop_near) (use True assms(1) in simp)
    ultimately have "0 \<le> dadd t0 1" "dadd t0 1 \<le> 3 / 2"
      using True unfolding dadd_def by argo+
    then show ?thesis using True by (simp add: t1_def)
  next
    case False
    then show ?thesis using assms(2) by (simp add: t1_def)
  qed
  show ?thesis
  proof (cases "t1 > 1")
    case True
    have "0 \<le> fl64 (t1 - 1)" by (rule fl64_nonneg) (use True in simp)
    moreover have "\<bar>dsub t1 1 - (t1 - 1)\<bar> \<le> 1 / 10000000000000"
      by (rule dop_near) (use True t1 in simp)
    ultimately have "0 \<le> dsub t1 1" "dsub t1 1 \<le> 1"
      using t1 unfolding dsub_def by argo+
    then show ?thesis using True by (simp add: t_def)
  next
    case False
    then show ?thesis using t1 by (simp add: t_def)
  qed
qed

lemma hue2rgb_rising:
  assumes p: "- (1 / 100000000000) \<le> p" "p \<le> 1 + 1 / 100000000000"
    and q: "- (1 / 100000000000) \<le> q" "q \<le> 1 + 1 / 100000000000"
    and t: "0 \<le> t" "t < ddiv 1 6"
  defines "out \<equiv> dadd p (dmul (dmul (dsub q p) 6) t)"
  shows "- (1 / 10000000000) \<le> out \<and> out \<le> 1 + 1 / 10000000000"
proof -
  define d where "d = dsub q p"
  define m1 where "m1 = dmul d 6"
  define m2 where "m2 = dmul m1 t"
  have sixth: "\<bar>ddiv 1 6 - 1 / 6\<bar> \<le> 1 / 10000000000000"
    by (rule dop_near) simp
  have t1: "t \<le> 1" using t(2) sixth by argo
  have e1: "\<bar>d - (q - p)\<bar> \<le> 1 / 10000000000000"
    unfolding d_def by (rule dop_near) (use p q in simp)
  then have d: "\<bar>d\<bar> \<le> 2" using p q by argo
  have e2: "\<bar>m1 - d * 6\<bar> \<le> 1 / 10000000000000"
    unfolding m1_def by (rule dop_near) (use d in simp)
  then have m1: "\<bar>m1\<bar> \<le> 13" using d by argo
  have m1t: "\<bar>m1 * t\<bar> \<le> 13" by (rule abs_mult_unit [OF m1 t(1) t1])
  have e3: "\<bar>m2 - m1 * t\<bar> \<le> 1 / 10000000000000"
    unfolding m2_def by (rule dop_near) (use m1t in simp)
  then have m2: "\<bar>m2\<bar> \<le> 14" using m1t by argo
  have e4: "\<bar>out - (p + m2)\<bar> \<le> 1 / 10000000000000"
    unfolding out_def m2_def [symmetric] m1_def [symmetric] d_def [symmetric]
    by (rule dop_near) (use m2 p in argo)
  have "\<bar>m1 - (q - p) * 6\<bar> \<le> 7 / 10000000000000" using e1 e2 by argo
  then have "\<bar>(m1 - (q - p) * 6) * t\<bar> \<le> 7 / 10000000000000"
    by (rule abs_mult_unit [OF _ t(1) t1])
  moreover have "(m1 - (q - p) * 6) * t = m1 * t - (q - p) * (6 * t)"
    by (simp add: algebra_simps)
  ultimately have e5: "\<bar>m1 * t - (q - p) * (6 * t)\<bar> \<le> 7 / 10000000000000" by simp
  have lam: "0 \<le> 6 * t" "6 * t \<le> 1 + 6 / 10000000000000"
    using t sixth by argo+
  have "- (4 / 100000000000) \<le> p + (q - p) * (6 * t) \<and> p + (q - p) * (6 * t) \<le> 1 + 4 / 100000000000"
    by (rule lerp_approx [OF p q lam]) simp_all
  then show ?thesis using e3 e4 e5 by argo
qed

lemma hue2rgb_falling:
  assumes p: "- (1 / 100000000000) \<le> p" "p \<le> 1 + 1 / 100000000000"
    and q: "- (1 / 100000000000) \<le> q" "q \<le> 1 + 1 / 100000000000"
    and t: "\<not> t < ddiv 1 2" "t < ddiv 2 3"
  defines "out \<equiv> dadd p (dmul (dmul (dsub q p) (dsub (ddiv 2 3) t)) 6)"
  shows "- (1 / 10000000000) \<le> out \<and> out \<le> 1 + 1 / 10000000000"
proof -
  define d where "d = dsub q p"
  define u where "u = dsub (ddiv 2 3) t"
  define m1 where "m1 = dmul d u"
  define m2 where "m2 = dmul m1 6"
  have half: "\<bar>ddiv 1 2 - 1 / 2\<bar> \<le> 1 / 10000000000000"
    by (rule dop_near) simp
  have tt: "\<bar>ddiv 2 3 - 2 / 3\<bar> \<le> 1 / 10000000000000"
    by (rule dop_near) simp
  have t': "1 / 2 - 1 / 10000000000000 \<le> t" "t \<le> 2 / 3 + 1 / 10000000000000"
    using t half tt by argo+
  have u0: "0 \<le> u" unfolding u_def dsub_def by (rule fl64_nonneg) (use t(2) in simp)
  have eu: "\<bar>u - (ddiv 2 3 - t)\<bar> \<le> 1 / 10000000000000"
    unfolding u_def by (rule dop_near) (use t' tt in argo)
  then have u1: "u \<le> 1 / 6 + 4 / 10000000000000" using t' tt by argo
  then have u1': "u \<le> 1" by simp
  have e1: "\<bar>d - (q - p)\<bar> \<le> 1 / 10000000000000"
    unfolding d_def by (rule dop_near) (use p q in simp)
  then have d: "\<bar>d\<bar> \<le> 2" using p q by argo
  have du: "\<bar>d * u\<bar> \<le> 2" by (rule abs_mult_unit [OF d u0 u1'])
  have e2: "\<bar>m1 - d * u\<bar> \<le> 1 / 10000000000000"
    unfolding m1_def by (rule dop_near) (use du in simp)
  then have m1: "\<bar>m1\<bar> \<le> 3" using du by argo
  have e3: "\<bar>m2 - m1 * 6\<bar> \<le> 1 / 10000000000000"
    unfolding m2_def by (rule dop_near) (use m1 in simp)
  then have m2: "\<bar>m2\<bar> \<le> 19" using m1 by argo
  have e4: "\<bar>out - (p + m2)\<bar> \<le> 1 / 10000000000000"
    unfolding out_def m2_def [symmetric] m1_def [symmetric] d_def [symmetric] u_def [symmetric]
    by (rule dop_near) (use m2 p in argo)
  have "\<bar>(d - (q - p)) * u\<bar> \<le> 1 / 10000000000000"
    by (rule abs_mult_unit [OF e1 u0 u1'])
  moreover have "(d - (q - p)) * u = d * u - (q - p) * u"
    by (simp add: algebra_simps)
  ultimately have e5: "\<bar>d * u - (q - p) * u\<bar> \<le> 1 / 10000000000000" by simp
  have lam: "0 \<le> 6 * u" "6 * u \<le> 1 + 24 / 10000000000000"
    using u0 u1 by simp_all
  have "- (4 / 100000000000) \<le> p + (q - p) * (6 * u) \<and> p + (q - p) * (6 * u) \<le> 1 + 4 / 100000000000"
    by (rule lerp_approx [OF p q lam]) simp_all
  moreover have "(q - p) * (6 * u) = 6 * ((q - p) * u)" by simp
  ultimately show ?thesis using e2 e3 e4 e5 by argo
qed

lemma hue2rgb_range:
  assumes p: "- (1 / 100000000000) \<le> p" "p \<le> 1 + 1 / 100000000000"
    and q: "- (1 / 100000000000) \<le> q" "q \<le> 1 + 1 / 100000000000"
    and t0: "- (1 / 2) \<le> t0" "t0 \<le> 3 / 2"
  shows "- (1 / 10000000000) \<le> hue2rgb p q t0 \<and> hue2rgb p q t0 \<le> 1 + 1 / 10000000000"
proof -
  define t1 where "t1 = (if t0 < 0 then dadd t0 1 else t0)"
  define t where "t = (if t1 > 1 then dsub t1 1 else t1)"
  have t: "0 \<le> t \<and> t \<le> 1"
    unfolding t_def t1_def by (rule hue2rgb_t_range [OF t0])
  have eq: "hue2rgb p q t0 =
      (if t < ddiv 1 6 then dadd p (dmul (dmul (dsub q p) 6) t)
       else if t < ddiv 1 2 then q
       else if t < ddiv 2 3 then dadd p (dmul (dmul (dsub q p) (dsub (ddiv 2 3) t)) 6)
       else p)"
    by (simp add: hue2rgb_def Let_def t_def t1_def)
  consider (a) "t < ddiv 1 6" | (b) "\<not> t < ddiv 1 6" "t < ddiv 1 2"
    | (c) "\<not> t < ddiv 1 6" "\<not> t < ddiv 1 2" "t < ddiv 2 3"
    | (d) "\<not> t < ddiv 1 6" "\<not> t < ddiv 1 2" "\<not> t < ddiv 2 3"
    by blast
  then show ?thesis
  proof cases
    case a
    have "hue2rgb p q t0 = dadd p (dmul (dmul (dsub q p) 6) t)"
      using a by (simp add: eq)
    moreover have "- (1 / 10000000000) \<le> dadd p (dmul (dmul (dsub q p) 6) t)
        \<and> dadd p (dmul (dmul (dsub q p) 6) t) \<le> 1 + 1 / 10000000000"
      using t a by (intro hue2rgb_rising [OF p q]) simp_all
    ultimately show ?thesis by simp
  next
    case b
    then have "hue2rgb p q t0 = q" by (simp add: eq)
    then show ?thesis using q by simp
  next
    case c
    have "hue2rgb p q t0 = dadd p (dmul (dmul (dsub q p) (dsub (ddiv 2 3) t)) 6)"
      using c by (simp add: eq)
    moreover have "- (1 / 10000000000) \<le> dadd p (dmul (dmul (dsub q p) (dsub (ddiv 2 3) t)) 6)
        \<and> dadd p (dmul (dmul (dsub q p) (dsub (ddiv 2 3) t)) 6) \<le> 1 + 1 / 10000000000"
      using c by (intro hue2rgb_falling [OF p q]) simp_all
    ultimately show ?thesis by simp
  next
    case d
    then have "hue2rgb p q t0 = p" by (simp add: eq)
    then show ?thesis using p by simp
  qed
qed

lemma rand_le: "fst (rand rs) \<le> 1 - 1 / 2 ^ 31"
proof -
  obtain a b c d where rs: "rs = (a, b, c, d)"
    by (cases rs) auto
  have "xorshift a d \<le> 2 ^ 31 - 1"
    using xorshift_range [of a d] by simp
  then have "real_of_int (xorshift a d) \<le> real_of_int (2 ^ 31 - 1)"
    by (rule of_int_le_iff [THEN iffD2])
  then show ?thesis
    by (simp add: rs fst_rand field_simps)
qed

lemma Math_round_channel:
  assumes "- (1 / 10000000000) \<le> c" "c \<le> 1 + 1 / 10000000000"
  shows "channel_ok (Math_round (dmul c 255))"
proof -
  have "\<bar>c * 255\<bar> \<le> 500" using assms by argo
  then have "\<bar>dmul c 255 - c * 255\<bar> \<le> 1 / 10000000000000" by (rule dop_near)
  then have "0 \<le> dmul c 255 + 1 / 2" "dmul c 255 + 1 / 2 < 256"
    using assms by argo+
  then have "0 \<le> \<lfloor>dmul c 255 + 1 / 2\<rfloor>" "\<lfloor>dmul c 255 + 1 / 2\<rfloor> < 256"
    by (simp_all add: floor_less_iff)
  then show ?thesis
    by (simp add: Math_round_def channel_ok_def)
qed

lemma hslToRgb_pq:
  assumes "0 \<le> s" "s \<le> 1" "0 \<le> l" "l \<le> 1"
  defines "q \<equiv> (if l < fl64 (5 / 10) then dmul l (dadd 1 s) else dsub (dadd l s) (dmul l s))"
  defines "p \<equiv> dsub (dmul 2 l) q"
  shows "- (1 / 100000000000) \<le> p \<and> p \<le> 1 + 1 / 100000000000 \<and>
         - (1 / 100000000000) \<le> q \<and> q \<le> 1 + 1 / 100000000000"
proof -
  have q: "l - 3 / 10000000000000 \<le> q \<and> q \<le> 1 + 3 / 10000000000000 \<and>
           q \<le> 2 * l + 3 / 10000000000000"
  proof (cases "l < 1 / 2")
    case True
    define a where "a = dadd 1 s"
    have ea: "\<bar>a - (1 + s)\<bar> \<le> 1 / 10000000000000"
      unfolding a_def by (rule dop_near) (use assms(1,2) in argo)
    then have a: "1 - 1 / 10000000000000 \<le> a" "a \<le> 2 + 1 / 10000000000000"
      using assms(1,2) by argo+
    have "l * (1 - 1 / 10000000000000) \<le> l * a"
      by (rule mult_left_mono [OF a(1) assms(3)])
    moreover have "l * a \<le> l * (2 + 1 / 10000000000000)"
      by (rule mult_left_mono [OF a(2) assms(3)])
    ultimately have "l - l * (1 / 10000000000000) \<le> l * a"
      "l * a \<le> 2 * l + l * (1 / 10000000000000)"
      by (simp_all only: algebra_simps)
    then have la: "l - 1 / 10000000000000 \<le> l * a" "l * a \<le> 2 * l + 1 / 10000000000000"
      using assms(3,4) by argo+
    then have "\<bar>l * a\<bar> \<le> 500" using assms(3,4) by argo
    then have "\<bar>dmul l a - l * a\<bar> \<le> 1 / 10000000000000" by (rule dop_near)
    moreover have "q = dmul l a" using True by (simp add: q_def a_def fl64_half)
    ultimately show ?thesis using la True assms(3) by argo
  next
    case False
    define b where "b = dadd l s"
    define c where "c = dmul l s"
    have "0 \<le> l * s"
      by (rule mult_nonneg_nonneg [OF assms(3,1)])
    moreover have "l * s \<le> 1 * 1"
      by (rule mult_mono [OF assms(4,2) _ assms(1)]) simp
    ultimately have "0 \<le> l * s" "l * s \<le> 1"
      by simp_all
    then have ls: "\<bar>l * s\<bar> \<le> 500" by argo
    have "0 \<le> s * (1 - l)" "0 \<le> (1 - l) * (1 - s)"
      using assms(1-4) by simp_all
    then have x: "l \<le> l + s - l * s" "l + s - l * s \<le> 1"
      by (simp_all add: algebra_simps)
    have eb: "\<bar>b - (l + s)\<bar> \<le> 1 / 10000000000000"
      unfolding b_def by (rule dop_near) (use assms(1-4) in argo)
    have ec: "\<bar>c - l * s\<bar> \<le> 1 / 10000000000000"
      unfolding c_def by (rule dop_near) (rule ls)
    have "\<bar>b - c\<bar> \<le> 500" using eb ec x assms(3) by argo
    then have "\<bar>dsub b c - (b - c)\<bar> \<le> 1 / 10000000000000" by (rule dop_near)
    moreover have "q = dsub b c" using False by (simp add: q_def b_def c_def fl64_half)
    ultimately show ?thesis using eb ec x False by argo
  qed
  define m where "m = dmul 2 l"
  have em: "\<bar>m - 2 * l\<bar> \<le> 1 / 10000000000000"
    unfolding m_def by (rule dop_near) (use assms(3,4) in argo)
  have "\<bar>m - q\<bar> \<le> 500" using em q assms(3,4) by argo
  then have "\<bar>dsub m q - (m - q)\<bar> \<le> 1 / 10000000000000" by (rule dop_near)
  moreover have "p = dsub m q" by (simp add: p_def m_def)
  ultimately show ?thesis using em q assms(3,4) by argo
qed

lemma hslToRgb_range:
  assumes "0 \<le> h" "h \<le> 1" "0 \<le> s" "s \<le> 1" "0 \<le> l" "l \<le> 1"
  shows "case hslToRgb h s l of (r, g, b) \<Rightarrow> channel_ok r \<and> channel_ok g \<and> channel_ok b"
proof (cases "s = 0")
  case True
  have "channel_ok (Math_round (dmul l 255))"
    by (rule Math_round_channel) (use assms(5,6) in simp_all)
  then show ?thesis
    using True by (simp add: hslToRgb_def)
next
  case False
  define q where "q = (if l < fl64 (5 / 10) then dmul l (dadd 1 s) else dsub (dadd l s) (dmul l s))"
  define p where "p = dsub (dmul 2 l) q"
  have pq: "- (1 / 100000000000) \<le> p" "p \<le> 1 + 1 / 100000000000"
    "- (1 / 100000000000) \<le> q" "q \<le> 1 + 1 / 100000000000"
    using hslToRgb_pq [OF assms(3-6)] by (simp_all add: p_def q_def)
  have ch: "channel_ok (Math_round (dmul (hue2rgb p q t) 255))" if "- (1 / 2) \<le> t" "t \<le> 3 / 2" for t
  proof -
    have "- (1 / 10000000000) \<le> hue2rgb p q t \<and> hue2rgb p q t \<le> 1 + 1 / 10000000000"
      by (rule hue2rgb_range [OF pq that])
    then show ?thesis
      by (intro Math_round_channel) simp_all
  qed
  have third: "\<bar>ddiv 1 3 - 1 / 3\<bar> \<le> 1 / 10000000000000"
    by (rule dop_near) simp
  have "\<bar>h + ddiv 1 3\<bar> \<le> 500" "\<bar>h - ddiv 1 3\<bar> \<le> 500"
    using third assms(1,2) by argo+
  then have "\<bar>dadd h (ddiv 1 3) - (h + ddiv 1 3)\<bar> \<le> 1 / 10000000000000"
    "\<bar>dsub h (ddiv 1 3) - (h - ddiv 1 3)\<bar> \<le> 1 / 10000000000000"
    by (simp_all only: dop_near)
  then have t: "- (1 / 2) \<le> dadd h (ddiv 1 3)" "dadd h (ddiv 1 3) \<le> 3 / 2"
    "- (1 / 2) \<le> dsub h (ddiv 1 3)" "dsub h (ddiv 1 3) \<le> 3 / 2"
    "- (1 / 2) \<le> h" "h \<le> 3 / 2"
    using third assms(1,2) by argo+
  have "hslToRgb h s l =
      (Math_round (dmul (hue2rgb p q (dadd h (ddiv 1 3))) 255),
       Math_round (dmul (hue2rgb p q h) 255),
       Math_round (dmul (hue2rgb p q (dsub h (ddiv 1 3))) 255))"
    using False by (simp add: hslToRgb_def p_def q_def Let_def)
  then show ?thesis
    using ch [OF t(1,2)] ch [OF t(3,4)] ch [OF t(5,6)] by simp
qed

lemma createHSL_range:
  "case createHSL rs of ((h, s, l), rs') \<Rightarrow>
     0 \<le> h \<and> h < 1 \<and> 4 / 10 \<le> s \<and> s < 1 \<and> 0 \<le> l \<and> l < 1"
proof -
  obtain h rs1 where r1: "rand rs = (h, rs1)" by (metis surj_pair)
  obtain r2 rs2 where r2: "rand rs1 = (r2, rs2)" by (metis surj_pair)
  obtain l1 rs3 where r3: "rand rs2 = (l1, rs3)" by (metis surj_pair)
  obtain l2 rs4 where r4: "rand rs3 = (l2, rs4)" by (metis surj_pair)
  obtain l3 rs5 where r5: "rand rs4 = (l3, rs5)" by (metis surj_pair)
  obtain l4 rs6 where r6: "rand rs5 = (l4, rs6)" by (metis surj_pair)
  have b: "0 \<le> h \<and> h < 1" "0 \<le> r2" "0 \<le> l1" "0 \<le> l2" "0 \<le> l3" "0 \<le> l4"
    using rand_bounds [of rs] rand_bounds [of rs1] rand_bounds [of rs2] rand_bounds [of rs3]
      rand_bounds [of rs4] rand_bounds [of rs5]
    by (simp_all add: r1 r2 r3 r4 r5 r6)
  have u: "r2 \<le> 1 - 1 / 2 ^ 31" "l1 \<le> 1 - 1 / 2 ^ 31" "l2 \<le> 1 - 1 / 2 ^ 31"
    "l3 \<le> 1 - 1 / 2 ^ 31" "l4 \<le> 1 - 1 / 2 ^ 31"
    using rand_le [of rs1] rand_le [of rs2] rand_le [of rs3] rand_le [of rs4] rand_le [of rs5]
    by (simp_all add: r2 r3 r4 r5 r6)
  define c6 where "c6 = fl64 (6 / 10)"
  define c4 where "c4 = fl64 (4 / 10)"
  define m where "m = dmul r2 c6"
  define s where "s = dadd m c4"
  define a1 where "a1 = dadd l1 l2"
  define a2 where "a2 = dadd a1 l3"
  define a3 where "a3 = dadd a2 l4"
  define l where "l = ddiv a3 4"
  have c6: "0 \<le> c6" "c6 \<le> 6 / 10 + 1 / 10000000000000"
  proof -
    show "0 \<le> c6" unfolding c6_def by (rule fl64_nonneg) simp
    have "\<bar>fl64 (6 / 10) - 6 / 10\<bar> \<le> 1 / 10000000000000" by (rule fl64_near) simp
    then show "c6 \<le> 6 / 10 + 1 / 10000000000000" unfolding c6_def by argo
  qed
  have c4: "4 / 10 - 1 / 10000000000000 \<le> c4" "c4 \<le> 4 / 10 + 1 / 10000000000000"
  proof -
    have "\<bar>fl64 (4 / 10) - 4 / 10\<bar> \<le> 1 / 10000000000000" by (rule fl64_near) simp
    then show "4 / 10 - 1 / 10000000000000 \<le> c4" "c4 \<le> 4 / 10 + 1 / 10000000000000"
      unfolding c4_def by argo+
  qed
  have rc: "0 \<le> r2 * c6" "r2 * c6 \<le> (1 - 1 / 2 ^ 31) * (6 / 10 + 1 / 10000000000000)"
  proof -
    show "0 \<le> r2 * c6" by (rule mult_nonneg_nonneg [OF b(2) c6(1)])
    show "r2 * c6 \<le> (1 - 1 / 2 ^ 31) * (6 / 10 + 1 / 10000000000000)"
      by (rule mult_mono [OF u(1) c6(2) _ c6(1)]) simp
  qed
  have m0: "0 \<le> m" unfolding m_def dmul_def by (rule fl64_nonneg) (rule rc(1))
  have "\<bar>r2 * c6\<bar> \<le> 500" using rc by simp
  then have em: "\<bar>m - r2 * c6\<bar> \<le> 1 / 10000000000000" unfolding m_def by (rule dop_near)
  have m1: "m \<le> (1 - 1 / 2 ^ 31) * (6 / 10 + 1 / 10000000000000) + 1 / 10000000000000"
    using em rc(2) by argo
  then have m2: "m \<le> 6 / 10 - 2 / 10000000000" by simp
  have "\<bar>m + c4\<bar> \<le> 500" using m0 m2 c4 by argo
  then have es: "\<bar>s - (m + c4)\<bar> \<le> 1 / 10000000000000" unfolding s_def by (rule dop_near)
  have s1: "s < 1"
    using es m0 m2 c4 by argo
  have c4v: "c4 = 3602879701896397 / 9007199254740992"
    unfolding c4_def using fl64_eval [of "4 / 10" 54 7205759403792794] by simp
  have s0: "4 / 10 \<le> s"
  proof (cases "m + c4 < 1 / 2")
    case True
    have "real_of_int 7205759403792794 / 2 ^ 54 \<le> fl64 (m + c4)"
    proof (rule fl64_ge)
      show "2 ^ 52 \<le> \<bar>m + c4\<bar> * 2 ^ 54" using m0 by (simp add: c4v)
      show "\<bar>m + c4\<bar> * 2 ^ 54 < 2 ^ 53" using m0 True by (simp add: c4v)
      show "(54::nat) \<le> 1074" by simp
      show "real_of_int 7205759403792794 \<le> (m + c4) * 2 ^ 54" using m0 by (simp add: c4v)
    qed
    then show ?thesis by (simp add: s_def dadd_def)
  next
    case False
    then show ?thesis using es by argo
  qed
  note s = s0 s1
  have a1: "0 \<le> a1" unfolding a1_def dadd_def by (rule fl64_nonneg) (use b in simp)
  have a2: "0 \<le> a2" unfolding a2_def dadd_def by (rule fl64_nonneg) (use a1 b in simp)
  have a3: "0 \<le> a3" unfolding a3_def dadd_def by (rule fl64_nonneg) (use a2 b in simp)
  have l0: "0 \<le> l" unfolding l_def ddiv_def by (rule fl64_nonneg) (use a3 in simp)
  have v: "l1 \<le> 1 - 1 / 2147483648" "l2 \<le> 1 - 1 / 2147483648"
    "l3 \<le> 1 - 1 / 2147483648" "l4 \<le> 1 - 1 / 2147483648"
    using u(2-5) by simp_all
  have "\<bar>l1 + l2\<bar> \<le> 500" using b v by argo
  then have e1: "\<bar>a1 - (l1 + l2)\<bar> \<le> 1 / 10000000000000" unfolding a1_def by (rule dop_near)
  have "\<bar>a1 + l3\<bar> \<le> 500" using e1 b v by argo
  then have e2: "\<bar>a2 - (a1 + l3)\<bar> \<le> 1 / 10000000000000" unfolding a2_def by (rule dop_near)
  have "\<bar>a2 + l4\<bar> \<le> 500" using e1 e2 b v by argo
  then have e3: "\<bar>a3 - (a2 + l4)\<bar> \<le> 1 / 10000000000000" unfolding a3_def by (rule dop_near)
  have "\<bar>a3 / 4\<bar> \<le> 500" using e1 e2 e3 b v by argo
  then have e4: "\<bar>l - a3 / 4\<bar> \<le> 1 / 10000000000000" unfolding l_def by (rule dop_near)
  have l1: "l < 1" using e1 e2 e3 e4 v by argo
  have "createHSL rs = ((h, s, l), rs6)"
    by (simp add: createHSL_def r1 r2 r3 r4 r5 r6 s_def m_def c6_def c4_def l_def a3_def a2_def a1_def)
  then show ?thesis
    using b(1) s l0 l1 by simp
qed

text \<open>
  Claim C3. For every engine state, every channel of the colour that \<open>hslToRgb\<close> makes of
  the values drawn by \<open>createHSL\<close> is an integer between 0 and 255. The arithmetic is that
  of doubles. The drawn values satisfy \<open>0 \<le> h < 1\<close>, \<open>0.4 \<le> s < 1\<close> and \<open>0 \<le> l < 1\<close>;
  every operation of the conversion is off by at most \<open>10^-13\<close>, so each channel lies
  within \<open>10^-7\<close> of \<open>[0, 255]\<close> before \<^verbatim>\<open>Math.round\<close>, far from the values that would
  round out of range.
\<close>

theorem hsl_color_in_range:
  "case createHSL rs of ((h, s, l), rs') \<Rightarrow>
     (0 \<le> h \<and> h < 1 \<and> 4 / 10 \<le> s \<and> s < 1 \<and> 0 \<le> l \<and> l < 1) \<and>
     (case hslToRgb h s l of (r, g, b) \<Rightarrow>
        0 \<le> r \<and> r \<le> 255 \<and> 0 \<le> g \<and> g \<le> 255 \<and> 0 \<le> b \<and> b \<le> 255)"
proof -
  obtain h s l rs' where c: "createHSL rs = ((h, s, l), rs')"
    by (metis surj_pair)
  have r: "0 \<le> h \<and> h < 1 \<and> 4 / 10 \<le> s \<and> s < 1 \<and> 0 \<le> l \<and> l < 1"
    using createHSL_range [of rs] by (simp add: c)
  then have "case hslToRgb h s l of (r, g, b) \<Rightarrow> channel_ok r \<and> channel_ok g \<and> channel_ok b"
    by (intro hslToRgb_range) simp_all
  then show ?thesis
    using r by (simp add: c channel_ok_def split: prod.splits)
qed

section \<open>Properties of the seed fold\<close>

lemma ToInt32_cong:
  "ToInt32 a = ToInt32 b \<longleftrightarrow> a mod 2 ^ 32 = b mod 2 ^ 32"
  unfolding ToInt32_def signed_take_bit_eq_iff_take_bit_eq take_bit_eq_mod by simp

lemma ToInt32_mod: "ToInt32 a mod 2 ^ 32 = a mod 2 ^ 32"
proof -
  have "take_bit 32 (signed_take_bit 31 a) = take_bit 32 a"
    by (rule take_bit_signed_take_bit) simp
  then show ?thesis
    unfolding ToInt32_def take_bit_eq_mod .
qed

lemma ToInt32_idem: "ToInt32 (ToInt32 a) = ToInt32 a"
  unfolding ToInt32_cong by (rule ToInt32_mod)

lemma js_shl_mod: "js_shl a n mod 2 ^ 32 = (2 ^ n * a) mod 2 ^ 32"
proof -
  have "js_shl a n mod 2 ^ 32 = (ToInt32 a * 2 ^ n) mod 2 ^ 32"
    unfolding js_shl_def push_bit_eq_mult by (rule ToInt32_mod)
  also have "\<dots> = (a * 2 ^ n) mod 2 ^ 32"
    by (rule mod_mult_cong [OF ToInt32_mod refl])
  finally show ?thesis
    by (simp only: mult.commute)
qed

lemma seed_lane_congruent:
  "ToInt32 (js_shl l 5 - l + c) = ToInt32 (31 * ToInt32 l + c)"
proof -
  have "(js_shl l 5 - l + c) mod 2 ^ 32 = (2 ^ 5 * l - l + c) mod 2 ^ 32"
    by (rule mod_add_cong [OF mod_diff_cong [OF js_shl_mod refl] refl])
  also have "2 ^ 5 * l - l + c = 31 * l + c"
    by simp
  also have "(31 * l + c) mod 2 ^ 32 = (31 * ToInt32 l + c) mod 2 ^ 32"
    by (rule mod_add_cong [OF mod_mult_cong [OF refl ToInt32_mod [symmetric]] refl])
  finally show ?thesis
    unfolding ToInt32_cong .
qed

lemma lane_ToInt32_lanes: "lane (ToInt32_lanes rs) k = ToInt32 (lane rs k)"
  by (cases rs) (simp add: ToInt32_lanes_def)

lemma ToInt32_lanes_set_lane:
  "ToInt32_lanes (set_lane rs k v) = set_lane (ToInt32_lanes rs) k (ToInt32 v)"
  by (cases rs) (simp add: ToInt32_lanes_def)

text \<open>
  As long as a lane stays below \<open>2^52\<close> in size, a step of the fold is exact, and the lane
  read as a signed 32-bit integer is the lane of the wrapped fold. A step adds at most
  \<open>2^31 + 2^16\<close> to the size of a lane.
\<close>

lemma seed_step_exact:
  assumes "\<bar>lane rs (i mod 4)\<bar> < 2 ^ 52" "seed ! i < 2 ^ 16"
  shows "seed_step seed i rs =
     set_lane rs (i mod 4) (js_shl (lane rs (i mod 4)) 5 - lane rs (i mod 4) + int (seed ! i))"
proof -
  define l where "l = lane rs (i mod 4)"
  define c where "c = int (seed ! i)"
  have l: "\<bar>l\<bar> < 4503599627370496"
    using assms(1) by (simp add: l_def)
  have c: "0 \<le> c" "c < 65536"
    using assms(2) by (simp_all add: c_def)
  have "in32 (js_shl l 5)"
    unfolding js_shl_def by (rule in32_ToInt32)
  then have shl: "- 2147483648 \<le> js_shl l 5" "js_shl l 5 < 2147483648"
    by (simp_all add: in32_def)
  have "\<bar>js_shl l 5 - l\<bar> < 2 ^ 53"
    using shl l by simp
  then have a: "dint (js_shl l 5 - l) = js_shl l 5 - l"
    by (rule dint_exact)
  have "\<bar>js_shl l 5 - l + c\<bar> < 2 ^ 53"
    using shl l c by simp
  then have "dint (js_shl l 5 - l + c) = js_shl l 5 - l + c"
    by (rule dint_exact)
  then have "dint (dint (js_shl l 5 - l) + c) = js_shl l 5 - l + c"
    by (simp only: a)
  then show ?thesis
    unfolding seed_step_def l_def c_def by simp
qed

lemma seed_step_congruent:
  assumes "\<bar>lane rs (i mod 4)\<bar> < 2 ^ 52" "seed ! i < 2 ^ 16"
  shows "ToInt32_lanes (seed_step seed i rs) = seed_step_spec seed i (ToInt32_lanes rs)"
  by (simp add: seed_step_exact [OF assms] seed_step_spec_def ToInt32_lanes_set_lane
      lane_ToInt32_lanes seed_lane_congruent)

lemma lane_set_lane:
  "j < 4 \<Longrightarrow> k < 4 \<Longrightarrow> lane (set_lane rs j v) k = (if k = j then v else lane rs k)"
  by (cases rs) auto

lemma fold_seed_step_short:
  assumes "n \<le> length seed" and "\<forall>i < length seed. seed ! i < 2 ^ 16"
    and "\<forall>k < 4. \<bar>lane rs k\<bar> \<le> B" and "B + int n * 2147549184 < 2 ^ 52"
  shows "(\<forall>k < 4. \<bar>lane (fold (seed_step seed) [0..<n] rs) k\<bar> \<le> B + int n * 2147549184) \<and>
         ToInt32_lanes (fold (seed_step seed) [0..<n] rs)
           = fold (seed_step_spec seed) [0..<n] (ToInt32_lanes rs)"
  using assms(1,4)
proof (induction n)
  case 0
  then show ?case using assms(3) by simp
next
  case (Suc n)
  define rs' where "rs' = fold (seed_step seed) [0..<n] rs"
  define l where "l = lane rs' (n mod 4)"
  define c where "c = int (seed ! n)"
  have n: "n \<le> length seed" "n < length seed" "B + int n * 2147549184 < 2 ^ 52"
    using Suc.prems by simp_all
  have ih: "\<forall>k < 4. \<bar>lane rs' k\<bar> \<le> B + int n * 2147549184"
    "ToInt32_lanes rs' = fold (seed_step_spec seed) [0..<n] (ToInt32_lanes rs)"
    using Suc.IH [OF n(1,3)] by (simp_all add: rs'_def)
  have l: "\<bar>l\<bar> \<le> B + int n * 2147549184"
    using ih(1) by (simp add: l_def)
  then have small: "\<bar>lane rs' (n mod 4)\<bar> < 2 ^ 52"
    using n(3) by (simp add: l_def)
  have code: "seed ! n < 2 ^ 16"
    using assms(2) n(2) by simp
  then have c: "0 \<le> c" "c < 65536"
    by (simp_all add: c_def)
  have step: "seed_step seed n rs' = set_lane rs' (n mod 4) (js_shl l 5 - l + c)"
    unfolding l_def c_def by (rule seed_step_exact [OF small code])
  have "in32 (js_shl l 5)"
    unfolding js_shl_def by (rule in32_ToInt32)
  then have "- 2147483648 \<le> js_shl l 5" "js_shl l 5 < 2147483648"
    by (simp_all add: in32_def)
  then have new: "\<bar>js_shl l 5 - l + c\<bar> \<le> B + int (Suc n) * 2147549184"
    using l c by (simp add: algebra_simps)
  have bound: "\<bar>lane (seed_step seed n rs') k\<bar> \<le> B + int (Suc n) * 2147549184" if "k < 4" for k
  proof (cases "k = n mod 4")
    case True
    then show ?thesis
      using new that by (simp add: step lane_set_lane)
  next
    case False
    have "\<bar>lane rs' k\<bar> \<le> B + int n * 2147549184"
      using ih(1) that by simp
    then show ?thesis
      using False that by (simp add: step lane_set_lane algebra_simps)
  qed
  have "ToInt32_lanes (seed_step seed n rs') = seed_step_spec seed n (ToInt32_lanes rs')"
    by (rule seed_step_congruent [OF small code])
  then show ?case
    using bound by (simp add: rs'_def [symmetric] ih(2))
qed

text \<open>
  So for a seed of at most \<open>2^20\<close> characters, folded into lanes that are 32-bit values,
  the lanes read as signed 32-bit integers are those of the wrapped fold.
\<close>

lemma createRandSeed_short:
  assumes "length seed \<le> 2 ^ 20" and "\<forall>i < length seed. seed ! i < 2 ^ 16"
    and "\<forall>k < 4. \<bar>lane rs k\<bar> \<le> 2 ^ 31"
  shows "ToInt32_lanes (createRandSeed seed rs) = createRandSeed_spec seed (ToInt32_lanes rs)"
proof -
  have "int (length seed) \<le> 1048576"
    using assms(1) by simp
  then have "2 ^ 31 + int (length seed) * 2147549184 < (2::int) ^ 52"
    by simp
  then show ?thesis
    using fold_seed_step_short [OF le_refl assms(2,3)]
    by (simp add: createRandSeed_def createRandSeed_spec_def)
qed

text \<open>
  Beyond \<open>2^53\<close> a step rounds: from the lane \<open>-(2^53 + 2)\<close> the code 107 gives
  \<open>2^53 + 44\<close>, where the integers give \<open>2^53 + 45\<close>.
\<close>

lemma seed_step_rounds:
  "seed_step [107] 0 (- 9007199254740994, 0, 0, 0) = (9007199254741036, 0, 0, 0) \<and>
   js_shl (- 9007199254740994) 5 - (- 9007199254740994) + 107 = 9007199254741037"
proof -
  have shl: "js_shl (- 9007199254740994) 5 = - 64"
    by (simp add: js_shl_def ToInt32_def)
  have a: "dint 9007199254740930 = 9007199254740930"
    by (rule dint_exact) simp
  have "fl64 9007199254741037 = real_of_int 4503599627370518 * 2 ^ 1"
    by (rule fl64_eval_big) simp_all
  then have b: "dint 9007199254741037 = 9007199254741036"
    by (simp add: dint_def)
  show ?thesis
    by (simp add: seed_step_def shl a b)
qed

lemma xorshift_ToInt32: "xorshift (ToInt32 a) (ToInt32 d) = xorshift a d"
  by (simp add: xorshift_def js_xor_def js_shl_def js_sar_def ToInt32_idem)

lemma ToInt32_xorshift: "ToInt32 (xorshift a d) = xorshift a d"
  by (simp add: xorshift_def Let_def ToInt32_id in32_js_xor)

lemma rand_ToInt32_lanes:
  "fst (rand (ToInt32_lanes rs)) = fst (rand rs) \<and>
   snd (rand (ToInt32_lanes rs)) = ToInt32_lanes (snd (rand rs))"
proof -
  obtain a b c d where rs: "rs = (a, b, c, d)"
    by (cases rs) auto
  show ?thesis
    by (simp add: rs ToInt32_lanes_def fst_rand snd_rand xorshift_ToInt32 ToInt32_xorshift)
qed

text \<open>
  Claim C9 fails on the code: the lanes are not reduced to 32 bits. The claim says that
  every lane is \<open>31 * lane + code\<close> with signed 32-bit wrap-around, and the comments of
  \<^verbatim>\<open>blocky.ts\<close> call the lanes 32 bit values; only the shift of
  \<^verbatim>\<open>(lane << 5) - lane + code\<close> wraps. In a fresh process the seed of 33 letters \<open>a\<close>
  leaves lane 0 at 5377560545, above \<open>2^32\<close> and so outside the signed and the unsigned
  32-bit range; the wrapped fold gives 1082593249.
\<close>

theorem createRandSeed_not_wrapped:
  "createRandSeed (charCodes ''aaaaaaaaaaaaaaaaaaaaaaaaaaaaaaaaa'') (0, 0, 0, 0)
     = (5377560545, - 3982950272, - 3982950272, - 3982950272) \<and>
   createRandSeed_spec (charCodes ''aaaaaaaaaaaaaaaaaaaaaaaaaaaaaaaaa'') (0, 0, 0, 0)
     = (1082593249, 312017024, 312017024, 312017024) \<and>
   \<not> in32 5377560545 \<and> (2::int) ^ 32 \<le> 5377560545"
  by (simp add: createRandSeed_def createRandSeed_spec_def charCodes_def seed_step_def
      seed_step_spec_def js_shl_def ToInt32_def in32_def upt_rec_numeral dint_exact)

section \<open>The engine and the colours at the example inputs\<close>

lemma rand_eq: "rand (a, b, c, d) = (real_of_int (xorshift a d) / 2 ^ 31, (b, c, d, xorshift a d))"
  using fst_rand [of a b c d] snd_rand [of a b c d] by (simp add: prod_eq_iff)

lemmas bits = xorshift_def js_xor_def js_shl_def js_sar_def ToInt32_def Let_def

lemmas dops = dadd_def dsub_def dmul_def ddiv_def fl64_zero

text \<open>
  The roundings of the example runs. Each line is checked against the definition of
  \<open>fl64\<close>: the argument lies in the binade of spacing \<open>2^-j\<close> and is nearest to the
  multiple \<open>m * 2^-j\<close>, or halfway to it with \<open>m\<close> even.
\<close>

lemma roundings_const:
  "fl64 (3 / 5) = 5404319552844595 / 9007199254740992"
  "fl64 (2 / 5) = 3602879701896397 / 9007199254740992"
  "fl64 (1 / 3) = 6004799503160661 / 18014398509481984"
  "fl64 (1 / 6) = 6004799503160661 / 36028797018963968"
  "fl64 (2 / 3) = 6004799503160661 / 9007199254740992"
  "fl64 (1 / 2) = 1 / 2"
proof -
  show "fl64 (3 / 5) = 5404319552844595 / 9007199254740992"
    using fl64_eval [of "3 / 5" 53 "5404319552844595"] by simp
  show "fl64 (2 / 5) = 3602879701896397 / 9007199254740992"
    using fl64_eval [of "2 / 5" 54 "7205759403792794"] by simp
  show "fl64 (1 / 3) = 6004799503160661 / 18014398509481984"
    using fl64_eval [of "1 / 3" 54 "6004799503160661"] by simp
  show "fl64 (1 / 6) = 6004799503160661 / 36028797018963968"
    using fl64_eval [of "1 / 6" 55 "6004799503160661"] by simp
  show "fl64 (2 / 3) = 6004799503160661 / 9007199254740992"
    using fl64_eval [of "2 / 3" 53 "6004799503160661"] by simp
  show "fl64 (1 / 2) = 1 / 2"
    using fl64_eval [of "1 / 2" 53 "4503599627370496"] by simp
qed

lemma roundings_k1:
  "fl64 (1188707107245932893225 / 19342813113834066795298816) = 131973 / 2147483648"
  "fl64 (3603433236778189 / 9007199254740992) = 3603433236778189 / 9007199254740992"
  "fl64 (219955 / 1073741824) = 219955 / 1073741824"
  "fl64 (449444137 / 2147483648) = 449444137 / 2147483648"
  "fl64 (112415845 / 536870912) = 112415845 / 536870912"
  "fl64 (112415845 / 2147483648) = 112415845 / 2147483648"
  "fl64 (12610632491519181 / 9007199254740992) = 3152658122879795 / 2251799813685248"
  "fl64 (354408726879645988351775 / 4835703278458516698824704) = 2640550783869967 / 36028797018963968"
  "fl64 (112415845 / 1073741824) = 112415845 / 1073741824"
  "fl64 (1131499042905073 / 36028797018963968) = 1131499042905073 / 36028797018963968"
  "fl64 (6004799503160661 / 18014398509481984) = 6004799503160661 / 18014398509481984"
  "fl64 (6006644619433301 / 18014398509481984) = 6006644619433301 / 18014398509481984"
  "fl64 (6004799503160661 / 36028797018963968) = 6004799503160661 / 36028797018963968"
  "fl64 (754525870482447 / 18014398509481984) = 754525870482447 / 18014398509481984"
  "fl64 (2263577611447341 / 9007199254740992) = 2263577611447341 / 9007199254740992"
  "fl64 (497885213525899889655 / 19342813113834066795298816) = 3798562725264739 / 147573952589676412928"
  "fl64 (4638418642464443747 / 147573952589676412928) = 4529705705531683 / 144115188075855872"
  "fl64 (- (6002954386888021 / 18014398509481984)) = - (6002954386888021 / 18014398509481984)"
  "fl64 (12011444122593963 / 18014398509481984) = 3002861030648491 / 4503599627370496"
  "fl64 (6004799503160661 / 9007199254740992) = 6004799503160661 / 9007199254740992"
  "fl64 (673340449886841585 / 36028797018963968) = 2630236132370475 / 140737488355328"
  "fl64 (1155074954910579165 / 144115188075855872) = 2256005771309725 / 281474976710656"
  "fl64 (288532255940793615 / 36028797018963968) = 1127079124768725 / 140737488355328"
proof -
  show "fl64 (1188707107245932893225 / 19342813113834066795298816) = 131973 / 2147483648"
    using fl64_eval [of "1188707107245932893225 / 19342813113834066795298816" 66 "4534557751640064"] by simp
  show "fl64 (3603433236778189 / 9007199254740992) = 3603433236778189 / 9007199254740992"
    using fl64_eval [of "3603433236778189 / 9007199254740992" 54 "7206866473556378"] by simp
  show "fl64 (219955 / 1073741824) = 219955 / 1073741824"
    using fl64_eval [of "219955 / 1073741824" 65 "7557596252733440"] by simp
  show "fl64 (449444137 / 2147483648) = 449444137 / 2147483648"
    using fl64_eval [of "449444137 / 2147483648" 55 "7540421366382592"] by simp
  show "fl64 (112415845 / 536870912) = 112415845 / 536870912"
    using fl64_eval [of "112415845 / 536870912" 55 "7544099653550080"] by simp
  show "fl64 (112415845 / 2147483648) = 112415845 / 2147483648"
    using fl64_eval [of "112415845 / 2147483648" 57 "7544099653550080"] by simp
  show "fl64 (12610632491519181 / 9007199254740992) = 3152658122879795 / 2251799813685248"
    using fl64_eval [of "12610632491519181 / 9007199254740992" 52 "6305316245759590"] by simp
  show "fl64 (354408726879645988351775 / 4835703278458516698824704) = 2640550783869967 / 36028797018963968"
    using fl64_eval [of "354408726879645988351775 / 4835703278458516698824704" 56 "5281101567739934"] by simp
  show "fl64 (112415845 / 1073741824) = 112415845 / 1073741824"
    using fl64_eval [of "112415845 / 1073741824" 56 "7544099653550080"] by simp
  show "fl64 (1131499042905073 / 36028797018963968) = 1131499042905073 / 36028797018963968"
    using fl64_eval [of "1131499042905073 / 36028797018963968" 57 "4525996171620292"] by simp
  show "fl64 (6004799503160661 / 18014398509481984) = 6004799503160661 / 18014398509481984"
    using fl64_eval [of "6004799503160661 / 18014398509481984" 54 "6004799503160661"] by simp
  show "fl64 (6006644619433301 / 18014398509481984) = 6006644619433301 / 18014398509481984"
    using fl64_eval [of "6006644619433301 / 18014398509481984" 54 "6006644619433301"] by simp
  show "fl64 (6004799503160661 / 36028797018963968) = 6004799503160661 / 36028797018963968"
    using fl64_eval [of "6004799503160661 / 36028797018963968" 55 "6004799503160661"] by simp
  show "fl64 (754525870482447 / 18014398509481984) = 754525870482447 / 18014398509481984"
    using fl64_eval [of "754525870482447 / 18014398509481984" 57 "6036206963859576"] by simp
  show "fl64 (2263577611447341 / 9007199254740992) = 2263577611447341 / 9007199254740992"
    using fl64_eval [of "2263577611447341 / 9007199254740992" 54 "4527155222894682"] by simp
  show "fl64 (497885213525899889655 / 19342813113834066795298816) = 3798562725264739 / 147573952589676412928"
    using fl64_eval [of "497885213525899889655 / 19342813113834066795298816" 68 "7597125450529478"] by simp
  show "fl64 (4638418642464443747 / 147573952589676412928) = 4529705705531683 / 144115188075855872"
    using fl64_eval [of "4638418642464443747 / 147573952589676412928" 57 "4529705705531683"] by simp
  show "fl64 (- (6002954386888021 / 18014398509481984)) = - (6002954386888021 / 18014398509481984)"
    using fl64_eval [of "- (6002954386888021 / 18014398509481984)" 54 "- 6002954386888021"] by simp
  show "fl64 (12011444122593963 / 18014398509481984) = 3002861030648491 / 4503599627370496"
    using fl64_eval [of "12011444122593963 / 18014398509481984" 53 "6005722061296982"] by simp
  show "fl64 (6004799503160661 / 9007199254740992) = 6004799503160661 / 9007199254740992"
    using fl64_eval [of "6004799503160661 / 9007199254740992" 53 "6004799503160661"] by simp
  show "fl64 (673340449886841585 / 36028797018963968) = 2630236132370475 / 140737488355328"
    using fl64_eval [of "673340449886841585 / 36028797018963968" 48 "5260472264740950"] by simp
  show "fl64 (1155074954910579165 / 144115188075855872) = 2256005771309725 / 281474976710656"
    using fl64_eval [of "1155074954910579165 / 144115188075855872" 49 "4512011542619450"] by simp
  show "fl64 (288532255940793615 / 36028797018963968) = 1127079124768725 / 140737488355328"
    using fl64_eval [of "288532255940793615 / 36028797018963968" 49 "4508316499074900"] by simp
qed

lemma roundings_k2:
  "fl64 (8195038049289111146879725 / 19342813113834066795298816) = 909831993 / 2147483648"
  "fl64 (7418991669464269 / 9007199254740992) = 7418991669464269 / 9007199254740992"
  "fl64 (2167447269 / 2147483648) = 2167447269 / 2147483648"
  "fl64 (3657195955 / 2147483648) = 3657195955 / 2147483648"
  "fl64 (994656383 / 536870912) = 994656383 / 536870912"
  "fl64 (994656383 / 2147483648) = 994656383 / 2147483648"
  "fl64 (16426190924205261 / 9007199254740992) = 4106547731051315 / 2251799813685248"
  "fl64 (4084603912784357765293645 / 4835703278458516698824704) = 7608167664677571 / 9007199254740992"
  "fl64 (994656383 / 1073741824) = 994656383 / 1073741824"
  "fl64 (735614827007293 / 9007199254740992) = 735614827007293 / 9007199254740992"
  "fl64 (18772185851450709 / 18014398509481984) = 4693046462862677 / 4503599627370496"
  "fl64 (189446835492181 / 4503599627370496) = 189446835492181 / 4503599627370496"
  "fl64 (3436276418835139 / 4503599627370496) = 3436276418835139 / 4503599627370496"
  "fl64 (10308829256505417 / 2251799813685248) = 1288603657063177 / 281474976710656"
  "fl64 (244121885034270514231806519037 / 1267650600228229401496703205376) = 6938361282046529 / 36028797018963968"
  "fl64 (9880820590075701 / 36028797018963968) = 2470205147518925 / 9007199254740992"
  "fl64 (6762586845129387 / 18014398509481984) = 6762586845129387 / 18014398509481984"
  "fl64 (629902312617325875 / 9007199254740992) = 2460555908661429 / 35184372088832"
  "fl64 (187581780886859715 / 9007199254740992) = 2930965326357183 / 140737488355328"
  "fl64 (1940082754492780605 / 9007199254740992) = 473653016233589 / 2199023255552"
proof -
  show "fl64 (8195038049289111146879725 / 19342813113834066795298816) = 909831993 / 2147483648"
    using fl64_eval [of "8195038049289111146879725 / 19342813113834066795298816" 54 "7632223935135744"] by simp
  show "fl64 (7418991669464269 / 9007199254740992) = 7418991669464269 / 9007199254740992"
    using fl64_eval [of "7418991669464269 / 9007199254740992" 53 "7418991669464269"] by simp
  show "fl64 (2167447269 / 2147483648) = 2167447269 / 2147483648"
    using fl64_eval [of "2167447269 / 2147483648" 52 "4545466375077888"] by simp
  show "fl64 (3657195955 / 2147483648) = 3657195955 / 2147483648"
    using fl64_eval [of "3657195955 / 2147483648" 52 "7669695811420160"] by simp
  show "fl64 (994656383 / 536870912) = 994656383 / 536870912"
    using fl64_eval [of "994656383 / 536870912" 52 "8343782491684864"] by simp
  show "fl64 (994656383 / 2147483648) = 994656383 / 2147483648"
    using fl64_eval [of "994656383 / 2147483648" 54 "8343782491684864"] by simp
  show "fl64 (16426190924205261 / 9007199254740992) = 4106547731051315 / 2251799813685248"
    using fl64_eval [of "16426190924205261 / 9007199254740992" 52 "8213095462102630"] by simp
  show "fl64 (4084603912784357765293645 / 4835703278458516698824704) = 7608167664677571 / 9007199254740992"
    using fl64_eval [of "4084603912784357765293645 / 4835703278458516698824704" 53 "7608167664677571"] by simp
  show "fl64 (994656383 / 1073741824) = 994656383 / 1073741824"
    using fl64_eval [of "994656383 / 1073741824" 53 "8343782491684864"] by simp
  show "fl64 (735614827007293 / 9007199254740992) = 735614827007293 / 9007199254740992"
    using fl64_eval [of "735614827007293 / 9007199254740992" 56 "5884918616058344"] by simp
  show "fl64 (18772185851450709 / 18014398509481984) = 4693046462862677 / 4503599627370496"
    using fl64_eval [of "18772185851450709 / 18014398509481984" 52 "4693046462862677"] by simp
  show "fl64 (189446835492181 / 4503599627370496) = 189446835492181 / 4503599627370496"
    using fl64_eval [of "189446835492181 / 4503599627370496" 57 "6062298735749792"] by simp
  show "fl64 (3436276418835139 / 4503599627370496) = 3436276418835139 / 4503599627370496"
    using fl64_eval [of "3436276418835139 / 4503599627370496" 53 "6872552837670278"] by simp
  show "fl64 (10308829256505417 / 2251799813685248) = 1288603657063177 / 281474976710656"
    using fl64_eval [of "10308829256505417 / 2251799813685248" 50 "5154414628252708"] by simp
  show "fl64 (244121885034270514231806519037 / 1267650600228229401496703205376) = 6938361282046529 / 36028797018963968"
    using fl64_eval [of "244121885034270514231806519037 / 1267650600228229401496703205376" 55 "6938361282046529"] by simp
  show "fl64 (9880820590075701 / 36028797018963968) = 2470205147518925 / 9007199254740992"
    using fl64_eval [of "9880820590075701 / 36028797018963968" 54 "4940410295037850"] by simp
  show "fl64 (6762586845129387 / 18014398509481984) = 6762586845129387 / 18014398509481984"
    using fl64_eval [of "6762586845129387 / 18014398509481984" 54 "6762586845129387"] by simp
  show "fl64 (629902312617325875 / 9007199254740992) = 2460555908661429 / 35184372088832"
    using fl64_eval [of "629902312617325875 / 9007199254740992" 46 "4921111817322858"] by simp
  show "fl64 (187581780886859715 / 9007199254740992) = 2930965326357183 / 140737488355328"
    using fl64_eval [of "187581780886859715 / 9007199254740992" 48 "5861930652714366"] by simp
  show "fl64 (1940082754492780605 / 9007199254740992) = 473653016233589 / 2199023255552"
    using fl64_eval [of "1940082754492780605 / 9007199254740992" 45 "7578448259737424"] by simp
qed

lemma roundings_zero:
  "fl64 (3602879701896397 / 9007199254740992) = 3602879701896397 / 9007199254740992"
  "fl64 (12610078956637389 / 9007199254740992) = 3152519739159347 / 2251799813685248"
  "fl64 (- (6004799503160661 / 18014398509481984)) = - (6004799503160661 / 18014398509481984)"
  "fl64 (12009599006321323 / 18014398509481984) = 3002399751580331 / 4503599627370496"
proof -
  show "fl64 (3602879701896397 / 9007199254740992) = 3602879701896397 / 9007199254740992"
    using fl64_eval [of "3602879701896397 / 9007199254740992" 54 "7205759403792794"] by simp
  show "fl64 (12610078956637389 / 9007199254740992) = 3152519739159347 / 2251799813685248"
    using fl64_eval [of "12610078956637389 / 9007199254740992" 52 "6305039478318694"] by simp
  show "fl64 (- (6004799503160661 / 18014398509481984)) = - (6004799503160661 / 18014398509481984)"
    using fl64_eval [of "- (6004799503160661 / 18014398509481984)" 54 "- 6004799503160661"] by simp
  show "fl64 (12009599006321323 / 18014398509481984) = 3002399751580331 / 4503599627370496"
    using fl64_eval [of "12009599006321323 / 18014398509481984" 53 "6004799503160662"] by simp
qed

lemma roundings_blocky:
  "fl64 (2512127687985623006015 / 9671406556917033397649408) = 4791503311129805 / 18446744073709551616"
  "fl64 (7383489132794950861 / 18446744073709551616) = 7210438606245069 / 18014398509481984"
  "fl64 (905793 / 1073741824) = 905793 / 1073741824"
  "fl64 (292154721 / 2147483648) = 292154721 / 2147483648"
  "fl64 (476957977 / 536870912) = 476957977 / 536870912"
  "fl64 (476957977 / 2147483648) = 476957977 / 2147483648"
  "fl64 (25224837115727053 / 18014398509481984) = 6306209278931763 / 4503599627370496"
  "fl64 (3007796820217922401523451 / 9671406556917033397649408) = 2801229078525605 / 9007199254740992"
  "fl64 (476957977 / 1073741824) = 476957977 / 1073741824"
  "fl64 (1199784423000411 / 9007199254740992) = 1199784423000411 / 9007199254740992"
  "fl64 (6058758100047189 / 18014398509481984) = 6058758100047189 / 18014398509481984"
  "fl64 (800722327762597 / 4503599627370496) = 800722327762597 / 4503599627370496"
  "fl64 (2402166983287791 / 2251799813685248) = 2402166983287791 / 2251799813685248"
  "fl64 (7725808614811477521753 / 2417851639229258349412352) = 7367905249415853 / 2305843009213693952"
  "fl64 (314512717537521069 / 2305843009213693952) = 4914261211523767 / 36028797018963968"
  "fl64 (- (5950840906274133 / 18014398509481984)) = - (5950840906274133 / 18014398509481984)"
  "fl64 (12063557603207851 / 18014398509481984) = 3015889400801963 / 4503599627370496"
  "fl64 (714313415024029275 / 9007199254740992) = 5580573554875229 / 70368744177664"
  "fl64 (1253136608938560585 / 36028797018963968) = 1223766219666563 / 35184372088832"
  "fl64 (305945027865104805 / 9007199254740992) = 4780391060392263 / 140737488355328"
proof -
  show "fl64 (2512127687985623006015 / 9671406556917033397649408) = 4791503311129805 / 18446744073709551616"
    using fl64_eval [of "2512127687985623006015 / 9671406556917033397649408" 64 "4791503311129805"] by simp
  show "fl64 (7383489132794950861 / 18446744073709551616) = 7210438606245069 / 18014398509481984"
    using fl64_eval [of "7383489132794950861 / 18446744073709551616" 54 "7210438606245069"] by simp
  show "fl64 (905793 / 1073741824) = 905793 / 1073741824"
    using fl64_eval [of "905793 / 1073741824" 63 "7780702623891456"] by simp
  show "fl64 (292154721 / 2147483648) = 292154721 / 2147483648"
    using fl64_eval [of "292154721 / 2147483648" 55 "4901542859636736"] by simp
  show "fl64 (476957977 / 536870912) = 476957977 / 536870912"
    using fl64_eval [of "476957977 / 536870912" 53 "8002027003052032"] by simp
  show "fl64 (476957977 / 2147483648) = 476957977 / 2147483648"
    using fl64_eval [of "476957977 / 2147483648" 55 "8002027003052032"] by simp
  show "fl64 (25224837115727053 / 18014398509481984) = 6306209278931763 / 4503599627370496"
    using fl64_eval [of "25224837115727053 / 18014398509481984" 52 "6306209278931763"] by simp
  show "fl64 (3007796820217922401523451 / 9671406556917033397649408) = 2801229078525605 / 9007199254740992"
    using fl64_eval [of "3007796820217922401523451 / 9671406556917033397649408" 54 "5602458157051210"] by simp
  show "fl64 (476957977 / 1073741824) = 476957977 / 1073741824"
    using fl64_eval [of "476957977 / 1073741824" 54 "8002027003052032"] by simp
  show "fl64 (1199784423000411 / 9007199254740992) = 1199784423000411 / 9007199254740992"
    using fl64_eval [of "1199784423000411 / 9007199254740992" 55 "4799137692001644"] by simp
  show "fl64 (6058758100047189 / 18014398509481984) = 6058758100047189 / 18014398509481984"
    using fl64_eval [of "6058758100047189 / 18014398509481984" 54 "6058758100047189"] by simp
  show "fl64 (800722327762597 / 4503599627370496) = 800722327762597 / 4503599627370496"
    using fl64_eval [of "800722327762597 / 4503599627370496" 55 "6405778622100776"] by simp
  show "fl64 (2402166983287791 / 2251799813685248) = 2402166983287791 / 2251799813685248"
    using fl64_eval [of "2402166983287791 / 2251799813685248" 52 "4804333966575582"] by simp
  show "fl64 (7725808614811477521753 / 2417851639229258349412352) = 7367905249415853 / 2305843009213693952"
    using fl64_eval [of "7725808614811477521753 / 2417851639229258349412352" 61 "7367905249415853"] by simp
  show "fl64 (314512717537521069 / 2305843009213693952) = 4914261211523767 / 36028797018963968"
    using fl64_eval [of "314512717537521069 / 2305843009213693952" 55 "4914261211523767"] by simp
  show "fl64 (- (5950840906274133 / 18014398509481984)) = - (5950840906274133 / 18014398509481984)"
    using fl64_eval [of "- (5950840906274133 / 18014398509481984)" 54 "- 5950840906274133"] by simp
  show "fl64 (12063557603207851 / 18014398509481984) = 3015889400801963 / 4503599627370496"
    using fl64_eval [of "12063557603207851 / 18014398509481984" 53 "6031778801603926"] by simp
  show "fl64 (714313415024029275 / 9007199254740992) = 5580573554875229 / 70368744177664"
    using fl64_eval [of "714313415024029275 / 9007199254740992" 46 "5580573554875229"] by simp
  show "fl64 (1253136608938560585 / 36028797018963968) = 1223766219666563 / 35184372088832"
    using fl64_eval [of "1253136608938560585 / 36028797018963968" 47 "4895064878666252"] by simp
  show "fl64 (305945027865104805 / 9007199254740992) = 4780391060392263 / 140737488355328"
    using fl64_eval [of "305945027865104805 / 9007199254740992" 47 "4780391060392263"] by simp
qed

lemma roundings_violet:
  "fl64 (1) = 1"
  "fl64 (1 / 4) = 1 / 4"
  "fl64 (3 / 4) = 3 / 4"
  "fl64 (19515598385272149 / 18014398509481984) = 4878899596318037 / 4503599627370496"
  "fl64 (375299968947541 / 4503599627370496) = 375299968947541 / 4503599627370496"
  "fl64 (3) = 3"
  "fl64 (1125899906842623 / 4503599627370496) = 1125899906842623 / 4503599627370496"
  "fl64 (2251799813685247 / 4503599627370496) = 2251799813685247 / 4503599627370496"
  "fl64 (7505999378950827 / 18014398509481984) = 7505999378950827 / 18014398509481984"
  "fl64 (574208952489737985 / 4503599627370496) = 2243003720663039 / 17592186044416"
  "fl64 (255 / 4) = 255 / 4"
  "fl64 (765 / 4) = 765 / 4"
proof -
  show "fl64 (1) = 1"
    using fl64_eval [of "1" 52 "4503599627370496"] by simp
  show "fl64 (1 / 4) = 1 / 4"
    using fl64_eval [of "1 / 4" 54 "4503599627370496"] by simp
  show "fl64 (3 / 4) = 3 / 4"
    using fl64_eval [of "3 / 4" 53 "6755399441055744"] by simp
  show "fl64 (19515598385272149 / 18014398509481984) = 4878899596318037 / 4503599627370496"
    using fl64_eval [of "19515598385272149 / 18014398509481984" 52 "4878899596318037"] by simp
  show "fl64 (375299968947541 / 4503599627370496) = 375299968947541 / 4503599627370496"
    using fl64_eval [of "375299968947541 / 4503599627370496" 56 "6004799503160656"] by simp
  show "fl64 (3) = 3"
    using fl64_eval [of "3" 51 "6755399441055744"] by simp
  show "fl64 (1125899906842623 / 4503599627370496) = 1125899906842623 / 4503599627370496"
    using fl64_eval [of "1125899906842623 / 4503599627370496" 55 "9007199254740984"] by simp
  show "fl64 (2251799813685247 / 4503599627370496) = 2251799813685247 / 4503599627370496"
    using fl64_eval [of "2251799813685247 / 4503599627370496" 54 "9007199254740988"] by simp
  show "fl64 (7505999378950827 / 18014398509481984) = 7505999378950827 / 18014398509481984"
    using fl64_eval [of "7505999378950827 / 18014398509481984" 54 "7505999378950827"] by simp
  show "fl64 (574208952489737985 / 4503599627370496) = 2243003720663039 / 17592186044416"
    using fl64_eval [of "574208952489737985 / 4503599627370496" 46 "8972014882652156"] by simp
  show "fl64 (255 / 4) = 255 / 4"
    using fl64_eval [of "255 / 4" 47 "8972014882652160"] by simp
  show "fl64 (765 / 4) = 765 / 4"
    using fl64_eval [of "765 / 4" 45 "6729011161989120"] by simp
qed

lemma seed_k1: "createRandSeed (charCodes ''k'') (0, 0, 0, 0) = (107, 0, 0, 0)"
  by (simp add: createRandSeed_def seed_step_def charCodes_def js_shl_def ToInt32_def dint_exact)

lemma seed_k2: "createRandSeed (charCodes ''k'') (219955, 449004227, 219243, 449003931)
    = (6818712, 449004227, 219243, 449003931)"
  by (simp add: createRandSeed_def seed_step_def charCodes_def js_shl_def ToInt32_def dint_exact)

lemma seed_blocky: "createRandSeed (charCodes ''blocky'') (0, 0, 0, 0) = (3145, 3469, 111, 99)"
  by (simp add: createRandSeed_def seed_step_def charCodes_def js_shl_def ToInt32_def dint_exact
      upt_rec_numeral)

lemma createRandSeed_empty: "createRandSeed [] rs = rs"
  by (simp add: createRandSeed_def)

lemma createHSL_k1: "createHSL (107, 0, 0, 0) =
     ((219955 / 2147483648, 3603433236778189 / 9007199254740992, 112415845 / 2147483648),
      (219955, 219955, 449004227, 219243))"
  by (simp add: createHSL_def rand_eq bits dops roundings_const roundings_k1)

lemma hslToRgb_k1:
  "hslToRgb (219955 / 2147483648) (3603433236778189 / 9007199254740992) (112415845 / 2147483648)
     = (19, 8, 8)"
  by (simp add: hslToRgb_def hue2rgb_def Math_round_def Let_def dops roundings_const roundings_k1)

lemma createHSL_k2: "createHSL (6818712, 449004227, 219243, 449003931) =
     ((95124441 / 134217728, 7418991669464269 / 9007199254740992, 994656383 / 2147483648),
      (1085862520, 1081584749, 1489748686, 321429577))"
  by (simp add: createHSL_def rand_eq bits dops roundings_const roundings_k1 roundings_k2)

lemma hslToRgb_k2:
  "hslToRgb (95124441 / 134217728) (7418991669464269 / 9007199254740992) (994656383 / 2147483648)
     = (70, 21, 215)"
  by (simp add: hslToRgb_def hue2rgb_def Math_round_def Let_def dops roundings_const roundings_k1
      roundings_k2)

lemma createHSL_zero:
  "createHSL (0, 0, 0, 0) = ((0, 3602879701896397 / 9007199254740992, 0), (0, 0, 0, 0))"
  by (simp add: createHSL_def rand_eq bits dops roundings_const roundings_k1 roundings_k2
      roundings_zero)

lemma hslToRgb_zero: "hslToRgb 0 (3602879701896397 / 9007199254740992) 0 = (0, 0, 0)"
  by (simp add: hslToRgb_def hue2rgb_def Math_round_def Let_def dops roundings_const roundings_k1
      roundings_k2 roundings_zero)

lemma createHSL_blocky: "createHSL (3145, 3469, 111, 99) =
     ((3216183 / 1073741824, 7210438606245069 / 18014398509481984, 476957977 / 2147483648),
      (873628, 937958, 290343135, 1615677187))"
  by (simp add: createHSL_def rand_eq bits dops roundings_const roundings_k1 roundings_k2
      roundings_zero roundings_blocky)

lemma hslToRgb_blocky:
  "hslToRgb (3216183 / 1073741824) (7210438606245069 / 18014398509481984) (476957977 / 2147483648)
     = (79, 35, 34)"
  by (simp add: hslToRgb_def hue2rgb_def Math_round_def Let_def dops roundings_const roundings_k1
      roundings_k2 roundings_zero roundings_blocky)

text \<open>
  The conversion is that of doubles: over the reals the first channel of this colour is
  \<open>127.5\<close>, which rounds to 128.
\<close>

lemma hslToRgb_violet: "hslToRgb (3 / 4) (1 / 2) (1 / 2) = (127, 64, 191)"
  by (simp add: hslToRgb_def hue2rgb_def Math_round_def Let_def dops roundings_const roundings_k1
      roundings_k2 roundings_zero roundings_blocky roundings_violet)

lemma ceil_1_2: "\<lceil>(1::real) / 2\<rceil> = 1"
  by linarith

lemma ceil_0_2: "\<lceil>(0::real) / 2\<rceil> = 0"
  by simp

lemma ceil_3_2: "\<lceil>(3::real) / 2\<rceil> = 2"
  by linarith

lemma upt_0_2: "[0..<2] = [0, 1]"
  by (simp add: numeral_2_eq_2)

lemma upt_0_3: "[0..<3] = [0, 1, 2]"
  by (simp add: numeral_3_eq_3)

lemmas grid_defs = createImageData_def flatMap_step_def image_row_def draw_cell_def

lemma grid_k1: "createImageData 1 1 (219955, 219955, 449004227, 219243) =
    (Inr [0], (219955, 449004227, 219243, 449003931))"
  by (simp add: grid_defs rand_eq bits ceil_1_2)

lemma grid_k2: "createImageData 1 1 (1085862520, 1081584749, 1489748686, 321429577) =
    (Inr [1], (1081584749, 1489748686, 321429577, 1803860838))"
  by (simp add: grid_defs rand_eq bits ceil_1_2)

lemma grid_zero: "createImageData 1 1 (0, 0, 0, 0) = (Inr [0], (0, 0, 0, 0))"
  by (simp add: grid_defs rand_eq bits ceil_1_2)


lemma grid_blocky: "createImageData 3 3 (873628, 937958, 290343135, 1615677187) =
    (Inr [0, 2, 0, 0, 0, 0, 1, 2, 1], (468119188, 295290804, 1776205027, 2072967739))"
  by (simp add: grid_defs rand_eq bits ceil_3_2 upt_0_2 upt_0_3)

section \<open>Properties of the compositor\<close>

lemma length_rgba: "length (rgba color) = 4"
  by (cases color) (simp add: rgba_def)

lemma painted_refl: "painted (\<lambda>p. False) px buf buf"
  by (simp add: painted_def)

lemma painted_trans:
  "painted P px b0 b1 \<Longrightarrow> painted Q px b1 b2 \<Longrightarrow> painted (\<lambda>p. P p \<or> Q p) px b0 b2"
  by (auto simp add: painted_def)

lemma fold_painted:
  assumes "\<And>x b. x < m \<Longrightarrow> length b = L \<Longrightarrow> painted (P x) px b (f x b)"
  shows "length b0 = L \<Longrightarrow> painted (\<lambda>p. \<exists>x < m. P x p) px b0 (fold f [0..<m] b0)"
  using assms
proof (induction m)
  case 0
  then show ?case by (simp add: painted_def)
next
  case (Suc m)
  have 1: "painted (\<lambda>p. \<exists>x < m. P x p) px b0 (fold f [0..<m] b0)"
    using Suc.IH [OF Suc.prems(1)] Suc.prems(2) by simp
  then have len: "length (fold f [0..<m] b0) = L"
    using Suc.prems(1) by (simp add: painted_def)
  have 2: "painted (P m) px (fold f [0..<m] b0) (f m (fold f [0..<m] b0))"
    using Suc.prems(2) [of m "fold f [0..<m] b0"] len by simp
  have "painted (\<lambda>p. (\<exists>x < m. P x p) \<or> P m p) px b0 (f m (fold f [0..<m] b0))"
    using painted_trans [OF 1 2] .
  moreover have "(\<lambda>p. (\<exists>x < m. P x p) \<or> P m p) = (\<lambda>p. \<exists>x < Suc m. P x p)"
    by (auto simp add: less_Suc_eq)
  ultimately show ?case by simp
qed

lemma painted_pixel:
  assumes "o' = int (4 * k)" "4 * k + 3 < length buf"
  shows "painted (\<lambda>p. p = k) (rgba (r, g, b)) buf
           (buf_set (buf_set (buf_set (buf_set buf o' r) (o' + 1) g) (o' + 2) b) (o' + 3) 255)"
proof -
  have n: "nat (int (4 * k)) = 4 * k" "nat (int (4 * k) + 1) = 4 * k + 1"
    "nat (int (4 * k) + 2) = 4 * k + 2" "nat (int (4 * k) + 3) = 4 * k + 3"
    by simp_all
  have upd: "buf_set (buf_set (buf_set (buf_set buf o' r) (o' + 1) g) (o' + 2) b) (o' + 3) 255
      = buf[4 * k := of_int r, 4 * k + 1 := of_int g, 4 * k + 2 := of_int b, 4 * k + 3 := 255]"
    using assms(2) unfolding assms(1) buf_set_def n by simp
  have "buf[4 * k := of_int r, 4 * k + 1 := of_int g, 4 * k + 2 := of_int b, 4 * k + 3 := 255] ! j
          = (if j div 4 = k then rgba (r, g, b) ! (j mod 4) else buf ! j)"
    if "j < length buf" for j
  proof (cases "j div 4 = k")
    case True
    define c where "c = j mod 4"
    have j: "j = 4 * k + c"
      using True mult_div_mod_eq [of 4 j] by (simp add: c_def)
    have c: "c < 4"
      by (simp add: c_def)
    have "c = 0 \<or> c = 1 \<or> c = 2 \<or> c = 3"
      using c by linarith
    then have "buf[4 * k := of_int r, 4 * k + 1 := of_int g, 4 * k + 2 := of_int b, 4 * k + 3 := 255]
                 ! (4 * k + c) = rgba (r, g, b) ! c"
      using assms(2) by (elim disjE) (simp_all add: rgba_def)
    then have "buf[4 * k := of_int r, 4 * k + 1 := of_int g, 4 * k + 2 := of_int b, 4 * k + 3 := 255]
                 ! j = rgba (r, g, b) ! c"
      by (simp only: j [symmetric])
    then show ?thesis
      using True by (simp only: c_def refl if_True)
  next
    case False
    then have "j \<noteq> 4 * k" "j \<noteq> 4 * k + 1" "j \<noteq> 4 * k + 2" "j \<noteq> 4 * k + 3"
      by auto
    then show ?thesis
      using False by simp
  qed
  then show ?thesis
    by (simp add: painted_def upd)
qed

lemma paint_pixel_painted:
  assumes "def_size options = int n" "def_scale options = int s"
    and "idx = (int row * int n * int s + int col) * int s * 4"
    and "4 * (((row * s + y) * (n * s) + col * s + x)) + 3 < length buf"
  shows "painted (\<lambda>p. p = (row * s + y) * (n * s) + col * s + x) (rgba color) buf
           (paint_pixel options color idx y x buf)"
proof -
  obtain r g b where color: "color = (r, g, b)"
    by (cases color) auto
  have o: "idx + (int x + int y * int n * int s) * 4 = int (4 * ((row * s + y) * (n * s) + col * s + x))"
    by (simp add: assms(3) algebra_simps)
  show ?thesis
    using painted_pixel [OF o assms(4), of r g b]
    by (simp add: paint_pixel_def color assms(1,2) Let_def)
qed

lemma paint_line_painted:
  assumes "def_size options = int n" "def_scale options = int s"
    and "idx = (int row * int n * int s + int col) * int s * 4"
    and "4 * ((row * s + y) * (n * s) + col * s + s) \<le> length buf"
  shows "painted (\<lambda>p. \<exists>x < s. p = (row * s + y) * (n * s) + col * s + x) (rgba color) buf
           (paint_line options color idx y buf)"
proof -
  have "painted (\<lambda>p. p = (row * s + y) * (n * s) + col * s + x) (rgba color) b
           (paint_pixel options color idx y x b)"
    if "x < s" "length b = length buf" for x b
    using paint_pixel_painted [OF assms(1,2,3), of y x b color] that assms(4) by simp
  then have "painted (\<lambda>p. \<exists>x < s. p = (row * s + y) * (n * s) + col * s + x) (rgba color) buf
           (fold (paint_pixel options color idx y) [0..<s] buf)"
    by (intro fold_painted [where L = "length buf"]) simp_all
  then show ?thesis
    by (simp add: paint_line_def assms(2))
qed

lemma paint_block_painted:
  assumes "def_size options = int n" "def_scale options = int s"
    and "idx = (int row * int n * int s + int col) * int s * 4"
    and "4 * ((row * s + s) * (n * s)) \<le> length buf" "col < n"
  shows "painted (\<lambda>p. \<exists>y < s. \<exists>x < s. p = (row * s + y) * (n * s) + col * s + x) (rgba color) buf
           (fold (paint_line options color idx) [0..<s] buf)"
proof -
  have "painted (\<lambda>p. \<exists>x < s. p = (row * s + y) * (n * s) + col * s + x) (rgba color) b
           (paint_line options color idx y b)"
    if "y < s" "length b = length buf" for y b
  proof -
    have "col * s + s \<le> n * s"
      using assms(5) by (metis Suc_leI mult_Suc mult_le_mono1 add.commute)
    moreover have "row * s + y + 1 \<le> row * s + s"
      using that(1) by simp
    then have "(row * s + y + 1) * (n * s) \<le> (row * s + s) * (n * s)"
      by (rule mult_le_mono1)
    ultimately have "(row * s + y) * (n * s) + col * s + s \<le> (row * s + s) * (n * s)"
      by (simp add: algebra_simps)
    then have "4 * ((row * s + y) * (n * s) + col * s + s) \<le> length b"
      using assms(4) that(2) by simp
    then show ?thesis
      by (rule paint_line_painted [OF assms(1,2,3)])
  qed
  then show ?thesis
    by (intro fold_painted [where L = "length buf"]) simp_all
qed

lemma divmod_block:
  fixes a b c :: nat
  assumes "c < b"
  shows "(a * b + c) div b = a" "(a * b + c) mod b = c"
  using assms by simp_all

lemma cell_of_block:
  assumes "y < s" "x < s" "col < n"
  shows "cell_of n s ((row * s + y) * (n * s) + col * s + x) = row * n + col"
proof -
  have w: "col * s + x < n * s"
  proof -
    have "col * s + x < col * s + s" using assms(2) by simp
    also have "\<dots> = Suc col * s" by simp
    also have "\<dots> \<le> n * s" using assms(3) by (intro mult_le_mono1) simp
    finally show ?thesis .
  qed
  have "((row * s + y) * (n * s) + col * s + x) div (n * s) = row * s + y"
    using divmod_block(1) [OF w, of "row * s + y"] by (simp only: add.assoc)
  moreover have "((row * s + y) * (n * s) + col * s + x) mod (n * s) = col * s + x"
    using divmod_block(2) [OF w, of "row * s + y"] by (simp only: add.assoc)
  moreover have "(row * s + y) div s = row" "(col * s + x) div s = col"
    using assms(1,2) by simp_all
  ultimately show ?thesis
    by (simp add: cell_of_def)
qed

lemma block_of_cell:
  assumes "0 < s" "cell_of n s p = row * n + col" "col < n" "p mod (n * s) div s < n"
  shows "\<exists>y < s. \<exists>x < s. p = (row * s + y) * (n * s) + col * s + x"
proof -
  define Y where "Y = p div (n * s)"
  define X where "X = p mod (n * s)"
  have "(Y div s) * n + X div s = row * n + col"
    using assms(2) by (simp add: cell_of_def Y_def X_def)
  moreover have "X div s < n"
    using assms(4) by (simp add: X_def)
  ultimately have rc: "Y div s = row" "X div s = col"
    using assms(3)
    by (metis add.commute div_mult_self1 div_less add_cancel_right_right less_nat_zero_code mult_is_0 nat_neq_iff,
        metis add.commute mod_mult_self1 mod_less mult.commute)
  have "p = Y * (n * s) + X"
    unfolding Y_def X_def by (rule div_mult_mod_eq [symmetric])
  moreover have "Y = row * s + Y mod s" "X = col * s + X mod s"
    using rc by (metis div_mult_mod_eq)+
  ultimately have "p = (row * s + Y mod s) * (n * s) + col * s + X mod s"
    by simp
  moreover have "Y mod s < s" "X mod s < s"
    using assms(1) by simp_all
  ultimately show ?thesis by blast
qed

lemma sqrt_upto_square: "n \<le> k \<Longrightarrow> sqrt_upto k (n * n) = n"
proof (induction k)
  case 0
  then show ?case by simp
next
  case (Suc k)
  show ?case
  proof (cases "Suc k \<le> n")
    case True
    then have "n = Suc k" using Suc.prems by simp
    then show ?thesis by simp
  next
    case False
    then have nk: "n \<le> k" by simp
    then have "n * n \<le> k * k"
      by (simp add: mult_le_mono)
    also have "k * k < Suc k * Suc k"
      by simp
    finally have "\<not> Suc k * Suc k \<le> n * n"
      by simp
    then show ?thesis
      using Suc.IH [OF nk] by simp
  qed
qed

lemma Math_sqrt_square: "Math_sqrt (n * n) = n"
  unfolding Math_sqrt_def by (rule sqrt_upto_square) (cases n; simp)

lemma fold_paint_cell:
  assumes "def_size options = int n" "def_scale options = int s" "0 < s"
    and "length buf0 = 4 * ((n * s) * (n * s))"
  shows "m \<le> n * n \<Longrightarrow>
     length (fold (paint_cell options imageData n) [0..<m] buf0) = length buf0 \<and>
     (\<forall>j < length buf0. fold (paint_cell options imageData n) [0..<m] buf0 ! j =
        (if cell_of n s (j div 4) < m
         then rgba (cell_color options (imageData ! cell_of n s (j div 4))) ! (j mod 4)
         else buf0 ! j))"
proof (induction m)
  case 0
  show ?case by simp
next
  case (Suc m)
  define buf where "buf = fold (paint_cell options imageData n) [0..<m] buf0"
  define row where "row = m div n"
  define col where "col = m mod n"
  define color where "color = cell_color options (imageData ! m)"
  define idx where "idx = (int row * int n * int s + int col) * int s * 4"
  define P where "P = (\<lambda>p. \<exists>y < s. \<exists>x < s. p = (row * s + y) * (n * s) + col * s + x)"
  define buf' where "buf' = fold (paint_line options color idx) [0..<s] buf"
  have m: "m < n * n" using Suc.prems by simp
  then have n: "0 < n" by (cases n) simp_all
  have rc1: "row < n"
    unfolding row_def using m by (simp add: less_mult_imp_div_less)
  have rc2: "col < n"
    unfolding col_def using n by simp
  have rc3: "row * n + col = m"
    unfolding row_def col_def by (rule div_mult_mod_eq)
  have "m \<le> n * n" using m by simp
  then have IH0: "length buf = length buf0 \<and>
     (\<forall>j < length buf0. buf ! j =
        (if cell_of n s (j div 4) < m
         then rgba (cell_color options (imageData ! cell_of n s (j div 4))) ! (j mod 4)
         else buf0 ! j))"
    unfolding buf_def by (rule Suc.IH)
  have IH1: "length buf = length buf0"
    using IH0 by (rule conjunct1)
  have IH2: "buf ! j =
        (if cell_of n s (j div 4) < m
         then rgba (cell_color options (imageData ! cell_of n s (j div 4))) ! (j mod 4)
         else buf0 ! j)" if "j < length buf0" for j
    using IH0 that by blast
  have "fold (paint_cell options imageData n) [0..<Suc m] buf0 = paint_cell options imageData n m buf"
    by (simp add: buf_def)
  also have "\<dots> = buf'"
    unfolding buf'_def paint_cell_def Let_def assms(1,2) row_def col_def color_def idx_def
    by simp
  finally have step: "fold (paint_cell options imageData n) [0..<Suc m] buf0 = buf'" .
  have "Suc row * s \<le> n * s"
    using rc1 by (intro mult_le_mono1) simp
  then have "row * s + s \<le> n * s"
    by (simp add: add.commute)
  then have "(row * s + s) * (n * s) \<le> (n * s) * (n * s)"
    by (rule mult_le_mono1)
  then have "4 * ((row * s + s) * (n * s)) \<le> 4 * ((n * s) * (n * s))"
    by (rule mult_le_mono2)
  then have "4 * ((row * s + s) * (n * s)) \<le> length buf"
    unfolding IH1 assms(4) .
  then have "painted (\<lambda>p. \<exists>y < s. \<exists>x < s. p = (row * s + y) * (n * s) + col * s + x)
      (rgba color) buf (fold (paint_line options color idx) [0..<s] buf)"
    using rc2 by (rule paint_block_painted [OF assms(1,2) idx_def])
  then have p: "painted P (rgba color) buf buf'"
    unfolding P_def buf'_def .
  have block: "P (j div 4) \<longleftrightarrow> cell_of n s (j div 4) = m" for j
  proof
    assume "P (j div 4)"
    then obtain y x where yx: "y < s" "x < s" "j div 4 = (row * s + y) * (n * s) + col * s + x"
      unfolding P_def by blast
    have "cell_of n s ((row * s + y) * (n * s) + col * s + x) = row * n + col"
      using yx(1,2) rc2 by (rule cell_of_block)
    then show "cell_of n s (j div 4) = m"
      unfolding yx(3) rc3 .
  next
    assume c: "cell_of n s (j div 4) = m"
    have "0 < n * s"
      using n assms(3) by simp
    then have "(j div 4) mod (n * s) < n * s"
      by (rule mod_less_divisor)
    then have "(j div 4) mod (n * s) div s < n"
      by (simp add: less_mult_imp_div_less)
    moreover have "cell_of n s (j div 4) = row * n + col"
      unfolding c rc3 ..
    ultimately show "P (j div 4)"
      unfolding P_def using block_of_cell [OF assms(3) _ rc2, of "j div 4" row] by blast
  qed
  have len: "length buf' = length buf0"
    using p unfolding painted_def IH1 by (rule conjunct1)
  have nth: "buf' ! j =
        (if cell_of n s (j div 4) < Suc m
         then rgba (cell_color options (imageData ! cell_of n s (j div 4))) ! (j mod 4)
         else buf0 ! j)" if "j < length buf0" for j
  proof -
    have 1: "buf' ! j = (if P (j div 4) then rgba color ! (j mod 4) else buf ! j)"
      using p that unfolding painted_def IH1 by blast
    show ?thesis
    proof (cases "cell_of n s (j div 4) = m")
      case True
      then have "P (j div 4)" by (simp only: block)
      then have "buf' ! j = rgba color ! (j mod 4)"
        using 1 by simp
      then show ?thesis
        using True by (simp add: color_def)
    next
      case False
      then have "\<not> P (j div 4)" by (simp only: block not_False_eq_True)
      then have "buf' ! j = buf ! j"
        using 1 by simp
      then show ?thesis
        using False IH2 [OF that] by (simp add: less_Suc_eq)
    qed
  qed
  show ?case
    unfolding step using len nth by blast
qed

lemma take4_drop:
  assumes "length xs = 4" "k + 4 \<le> length buf" "\<And>i. i < 4 \<Longrightarrow> buf ! (k + i) = xs ! i"
  shows "take 4 (drop k buf) = xs"
proof (rule nth_equalityI)
  show "length (take 4 (drop k buf)) = length xs"
    using assms(1,2) by simp
  fix i
  assume "i < length (take 4 (drop k buf))"
  then have i: "i < 4" by simp
  then show "take 4 (drop k buf) ! i = xs ! i"
    using assms(2,3) by simp
qed

lemma block_pixel_bound:
  fixes n s r c y x :: nat
  assumes "r < n" "c < n" "y < s" "x < s"
  shows "c * s + x < n * s" "(r * s + y) * (n * s) + (c * s + x) < (n * s) * (n * s)"
    "r * n + c < n * n"
proof -
  have "c * s + x < Suc c * s" using assms(4) by simp
  also have "\<dots> \<le> n * s" using assms(2) by (intro mult_le_mono1) simp
  finally show X: "c * s + x < n * s" .
  have "r * s + y < Suc r * s" using assms(3) by simp
  also have "\<dots> \<le> n * s" using assms(1) by (intro mult_le_mono1) simp
  finally have "Suc (r * s + y) \<le> n * s" by simp
  then have "Suc (r * s + y) * (n * s) \<le> (n * s) * (n * s)"
    by (rule mult_le_mono1)
  moreover have "(r * s + y) * (n * s) + (c * s + x) < Suc (r * s + y) * (n * s)"
    using X by simp
  ultimately show "(r * s + y) * (n * s) + (c * s + x) < (n * s) * (n * s)"
    by (rule less_le_trans [rotated])
  have "r * n + c < Suc r * n" using assms(2) by simp
  also have "\<dots> \<le> n * n" using assms(1) by (intro mult_le_mono1) simp
  finally show "r * n + c < n * n" .
qed

lemma composite_block:
  assumes "def_size options = int n" "def_scale options = int s" "0 < s"
    and "length buf0 = 4 * ((n * s) * (n * s))"
    and "r < n" "c < n" "y < s" "x < s"
  shows "take 4 (drop (4 * ((r * s + y) * (n * s) + (c * s + x)))
            (fold (paint_cell options imageData n) [0..<n * n] buf0))
         = rgba (cell_color options (imageData ! (r * n + c)))"
proof -
  define p where "p = (r * s + y) * (n * s) + (c * s + x)"
  define buf where "buf = fold (paint_cell options imageData n) [0..<n * n] buf0"
  have "cell_of n s ((r * s + y) * (n * s) + c * s + x) = r * n + c"
    using assms(7,8,6) by (rule cell_of_block)
  then have cell: "cell_of n s p = r * n + c"
    unfolding p_def by (simp only: add.assoc)
  have lt: "r * n + c < n * n" and pb: "p < (n * s) * (n * s)"
    unfolding p_def using block_pixel_bound [OF assms(5-8)] by blast+
  have "n * n \<le> n * n" by simp
  then have f0: "length buf = length buf0 \<and>
     (\<forall>j < length buf0. buf ! j =
        (if cell_of n s (j div 4) < n * n
         then rgba (cell_color options (imageData ! cell_of n s (j div 4))) ! (j mod 4)
         else buf0 ! j))"
    unfolding buf_def by (rule fold_paint_cell [OF assms(1-4)])
  have f1: "length buf = length buf0"
    using f0 by (rule conjunct1)
  have "buf ! (4 * p + i) = rgba (cell_color options (imageData ! (r * n + c))) ! i" if "i < 4" for i
  proof -
    have b: "4 * p + i < length buf0"
      unfolding assms(4) using pb that by simp
    have d: "(4 * p + i) div 4 = p" "(4 * p + i) mod 4 = i"
      using that by simp_all
    have "buf ! (4 * p + i) =
        (if cell_of n s ((4 * p + i) div 4) < n * n
         then rgba (cell_color options (imageData ! cell_of n s ((4 * p + i) div 4))) ! ((4 * p + i) mod 4)
         else buf0 ! (4 * p + i))"
      using f0 b by blast
    then show ?thesis
      unfolding d cell using lt by simp
  qed
  moreover have "4 * p + 4 \<le> length buf"
    unfolding f1 assms(4) using pb by simp
  ultimately have "take 4 (drop (4 * p) buf) = rgba (cell_color options (imageData ! (r * n + c)))"
    by (intro take4_drop length_rgba) simp_all
  then show ?thesis
    unfolding p_def buf_def .
qed

lemma composite_length:
  assumes "def_size options = int n" "def_scale options = int s" "0 < s"
    and "length buf0 = 4 * ((n * s) * (n * s))"
  shows "length (fold (paint_cell options imageData n) [0..<n * n] buf0) = length buf0"
proof -
  have "n * n \<le> n * n" by simp
  then have "length (fold (paint_cell options imageData n) [0..<n * n] buf0) = length buf0 \<and>
     (\<forall>j < length buf0. fold (paint_cell options imageData n) [0..<n * n] buf0 ! j =
        (if cell_of n s (j div 4) < n * n
         then rgba (cell_color options (imageData ! cell_of n s (j div 4))) ! (j mod 4)
         else buf0 ! j))"
    by (rule fold_paint_cell [OF assms])
  then show ?thesis by (rule conjunct1)
qed

lemma createBuffer_eq:
  "createBuffer rnd optsParam g =
     (let options = merged_options rnd optsParam g;
          g' = \<lparr>randseed = snd (grid_draw rnd optsParam g), defaultOptions = options\<rparr>
      in case fst (grid_draw rnd optsParam g) of
           Inl e \<Rightarrow> (Inl e, g')
         | Inr imageData \<Rightarrow> (PNG_sync_write (composite options imageData), g'))"
  by (cases "defaultOptions g")
    (simp add: createBuffer_def merged_options_def grid_draw_def composite_def Let_def
      split: prod.splits sum.splits)

lemma rgba_alpha: "rgba color ! 3 = 255"
  by (cases color) (simp add: rgba_def)

lemma rgba_exact:
  assumes "channel_ok r" "channel_ok g" "channel_ok b"
  shows "map uint (rgba (r, g, b)) = [r, g, b, 255]"
proof -
  have "uint (word_of_int c :: 8 word) = c" if "channel_ok c" for c
  proof -
    have "0 \<le> c" "c < 2 ^ 8"
      using that by (simp_all add: channel_ok_def)
    then have "take_bit 8 c = c"
      by (rule take_bit_int_eq_self)
    then show ?thesis
      by (simp add: uint_word_of_int_eq)
  qed
  then show ?thesis
    using assms by (simp add: rgba_def)
qed

lemma composite_samples:
  assumes "def_size options = int n" "def_scale options = int s" "0 < n" "0 < s"
    and "length imageData = n * n"
  shows "png_width (composite options imageData) = int n * int s"
    and "png_height (composite options imageData) = int n * int s"
    and "length (png_data (composite options imageData)) = 4 * ((n * s) * (n * s))"
    and "r < n \<Longrightarrow> c < n \<Longrightarrow> y < s \<Longrightarrow> x < s \<Longrightarrow>
           pixel (composite options imageData) (r * s + y) (c * s + x)
             = rgba (cell_color options (imageData ! (r * n + c)))"
proof -
  define buf0 where "buf0 = png_data (new_PNG (int n * int s) (int n * int s))"
  have pos: "0 < int n * int s"
    using assms(3,4) by simp
  have "nat (4 * (int n * int s) * (int n * int s)) = 4 * ((n * s) * (n * s))"
    by (simp add: nat_mult_distrib flip: of_nat_mult)
  then have len0: "length buf0 = 4 * ((n * s) * (n * s))"
    using pos by (simp add: buf0_def new_PNG_def)
  have comp: "composite options imageData =
      \<lparr>png_width = int n * int s, png_height = int n * int s,
       png_data = fold (paint_cell options imageData n) [0..<n * n] buf0\<rparr>"
    by (simp add: composite_def Let_def assms(1,2,5) Math_sqrt_square buf0_def new_PNG_def)
  show "png_width (composite options imageData) = int n * int s"
    and "png_height (composite options imageData) = int n * int s"
    by (simp_all add: comp)
  show "length (png_data (composite options imageData)) = 4 * ((n * s) * (n * s))"
    using composite_length [OF assms(1,2,4) len0, of imageData] by (simp add: comp len0)
  assume rc: "r < n" "c < n" "y < s" "x < s"
  have "nat (int n * int s) = n * s"
    by (simp flip: of_nat_mult)
  then have "pixel (composite options imageData) (r * s + y) (c * s + x) =
      take 4 (drop (4 * ((r * s + y) * (n * s) + (c * s + x)))
            (fold (paint_cell options imageData n) [0..<n * n] buf0))"
    by (simp add: pixel_def comp)
  then show "pixel (composite options imageData) (r * s + y) (c * s + x)
             = rgba (cell_color options (imageData ! (r * n + c)))"
    using composite_block [OF assms(1,2,4) len0 rc, of imageData] by simp
qed

lemma merged_options_size:
  "def_size (merged_options rnd optsParam g) = nullish (opt_size optsParam) (def_size (defaultOptions g))"
  "def_scale (merged_options rnd optsParam g) = nullish (opt_scale optsParam) (def_scale (defaultOptions g))"
  "def_seed (merged_options rnd optsParam g) = nullish (opt_seed optsParam) rnd"
  "def_bgColor (merged_options rnd optsParam g)
     = nullish (opt_bgColor optsParam) (def_bgColor (defaultOptions g))"
  by (simp_all add: merged_options_def Let_def split: prod.splits)

lemma merged_options_colors:
  "def_fgColor (merged_options rnd optsParam g)
     = nullish (opt_fgColor optsParam)
         (case fst (createHSL (createRandSeed (nullish (opt_seed optsParam) rnd) (randseed g))) of
            (h, s, l) \<Rightarrow> hslToRgb h s l)"
  "def_spotColor (merged_options rnd optsParam g)
     = nullish (opt_spotColor optsParam)
         (case fst (createHSL (createRandSeed (nullish (opt_seed optsParam) rnd) (randseed g))) of
            (h, s, l) \<Rightarrow> hslToRgb h s l)"
  by (simp_all add: merged_options_def Let_def split: prod.splits)


lemma createBuffer_result:
  "fst (createBuffer rnd optsParam g) =
     (case fst (grid_draw rnd optsParam g) of
        Inl e \<Rightarrow> Inl e
      | Inr imageData \<Rightarrow> PNG_sync_write (composite (merged_options rnd optsParam g) imageData))"
  by (simp add: createBuffer_eq Let_def split: sum.splits)

lemma grid_draw_eq:
  "grid_draw rnd optsParam g =
     createImageData (def_size (merged_options rnd optsParam g)) (def_size (merged_options rnd optsParam g))
       (snd (createHSL (createRandSeed (def_seed (merged_options rnd optsParam g)) (randseed g))))"
  by (simp add: grid_draw_def merged_options_size Let_def)

text \<open>
  Claim C6. For every size \<open>N \<ge> 1\<close> and scale \<open>S \<ge> 1\<close> in effect and all colours, the
  image has width and height \<open>N * S\<close> and \<open>4 * (N * S)^2\<close> bytes, the alpha byte of every
  pixel is 255, and every pixel of the \<open>S \<times> S\<close> block of grid cell \<open>(r, c)\<close> holds the
  colour of that cell: the cell is 0, 1 or 2, and the block is painted with \<open>bgColor\<close> for
  0, \<open>fgColor\<close> for 1 and \<open>spotColor\<close> for 2. The three colours are those of the call: the
  option given, else the stored \<open>bgColor\<close> and, for \<open>fgColor\<close> and \<open>spotColor\<close>, the colour
  drawn from the engine. The grid is the one drawn after the colour. A channel is stored as
  a byte, which is the channel itself when it lies between 0 and 255. The array allocation
  refuses a size of \<open>2^32\<close> or more.
\<close>

theorem createBuffer_samples:
  assumes "createBuffer rnd optsParam g = (res, g')"
    and "N = nullish (opt_size optsParam) (def_size (defaultOptions g))"
    and "S = nullish (opt_scale optsParam) (def_scale (defaultOptions g))"
    and "1 \<le> N" and "1 \<le> S"
    and "seeded = createRandSeed (nullish (opt_seed optsParam) rnd) (randseed g)"
    and "rgb = (case fst (createHSL seeded) of (h, s, l) \<Rightarrow> hslToRgb h s l)"
    and "bgColor = nullish (opt_bgColor optsParam) (def_bgColor (defaultOptions g))"
    and "fgColor = nullish (opt_fgColor optsParam) rgb"
    and "spotColor = nullish (opt_spotColor optsParam) rgb"
  shows "(\<forall>cr cg cb. channel_ok cr \<and> channel_ok cg \<and> channel_ok cb \<longrightarrow>
            map uint (rgba (cr, cg, cb)) = [cr, cg, cb, 255]) \<and>
         (case res of
            Inl e \<Rightarrow> 2 ^ 32 \<le> N
          | Inr p \<Rightarrow> N < 2 ^ 32 \<and> png_width p = N * S \<and> png_height p = N * S \<and>
              length (png_data p) = 4 * (nat (N * S) * nat (N * S)) \<and>
              (\<forall>Y < nat (N * S). \<forall>X < nat (N * S). pixel p Y X ! 3 = 255) \<and>
              (\<exists>grid. fst (createImageData N N (snd (createHSL seeded))) = Inr grid \<and>
                 length grid = nat N * nat N \<and>
                 (\<forall>r < nat N. \<forall>c < nat N.
                    (grid ! (r * nat N + c) = 0 \<or> grid ! (r * nat N + c) = 1 \<or>
                     grid ! (r * nat N + c) = 2) \<and>
                    (\<forall>y < nat S. \<forall>x < nat S.
                       pixel p (r * nat S + y) (c * nat S + x)
                         = rgba (if grid ! (r * nat N + c) = 0 then bgColor
                                 else if grid ! (r * nat N + c) = 1 then fgColor
                                 else spotColor)))))"
proof -
  define options where "options = merged_options rnd optsParam g"
  define n where "n = nat N"
  define s where "s = nat S"
  have res: "res = (case fst (grid_draw rnd optsParam g) of
        Inl e \<Rightarrow> Inl e | Inr imageData \<Rightarrow> PNG_sync_write (composite options imageData))"
    unfolding options_def using createBuffer_result [of rnd optsParam g] assms(1) by simp
  have N: "def_size options = N" and S: "def_scale options = S"
    and sd: "def_seed options = nullish (opt_seed optsParam) rnd"
    by (simp_all add: options_def merged_options_size assms(2,3))
  have colors: "def_bgColor options = bgColor" "def_fgColor options = fgColor"
    "def_spotColor options = spotColor"
    by (simp_all add: options_def merged_options_size merged_options_colors assms(6-10))
  have ns: "int n = N" "int s = S" "0 < n" "0 < s"
    using assms(4,5) by (simp_all add: n_def s_def)
  have nat_NS: "nat (N * S) = n * s"
    using assms(4,5) by (simp add: n_def s_def nat_mult_distrib)
  have gd: "grid_draw rnd optsParam g = createImageData N N (snd (createHSL seeded))"
    using grid_draw_eq [of rnd optsParam g] by (simp add: options_def [symmetric] N sd assms(6))
  have bytes: "(\<forall>cr cg cb. channel_ok cr \<and> channel_ok cg \<and> channel_ok cb \<longrightarrow> map uint (rgba (cr, cg, cb)) = [cr, cg, cb, 255])"
    using rgba_exact by blast
  have main: "case res of
            Inl e \<Rightarrow> 2 ^ 32 \<le> N
          | Inr p \<Rightarrow> N < 2 ^ 32 \<and> png_width p = N * S \<and> png_height p = N * S \<and>
              length (png_data p) = 4 * (nat (N * S) * nat (N * S)) \<and>
              (\<forall>Y < nat (N * S). \<forall>X < nat (N * S). pixel p Y X ! 3 = 255) \<and>
              (\<exists>grid. fst (createImageData N N (snd (createHSL seeded))) = Inr grid \<and>
                 length grid = nat N * nat N \<and>
                 (\<forall>r < nat N. \<forall>c < nat N.
                    (grid ! (r * nat N + c) = 0 \<or> grid ! (r * nat N + c) = 1 \<or>
                     grid ! (r * nat N + c) = 2) \<and>
                    (\<forall>y < nat S. \<forall>x < nat S.
                       pixel p (r * nat S + y) (c * nat S + x)
                         = rgba (if grid ! (r * nat N + c) = 0 then bgColor
                                 else if grid ! (r * nat N + c) = 1 then fgColor
                                 else spotColor))))"
  proof (cases "N < 2 ^ 32")
    case True
    have "0 \<le> N" using assms(4) by simp
    then obtain rows rs' where rows:
      "createImageData N N (snd (createHSL seeded)) = (Inr (concat rows), rs')"
      "length rows = nat N" "list_all (row_ok (nat N)) rows"
      using createImageData_rows [OF _ True] by blast
    define grid where "grid = concat rows"
    have "list_all (\<lambda>row. length row = n) rows"
      using rows(3) by (simp add: list_all_iff row_ok_def n_def)
    then have len: "length grid = n * n"
      using length_concat_rows [of n rows] rows(2) by (simp add: grid_def n_def)
    have fst_gd: "fst (createImageData N N (snd (createHSL seeded))) = Inr grid"
      by (simp add: rows(1) grid_def)
    have cells: "list_all cell_ok grid"
      by (rule createImageData_cells [OF fst_gd])
    have dims: "def_size options = int n" "def_scale options = int s"
      by (simp_all add: N S ns)
    note cs = composite_samples [OF dims ns(3,4) len]
    have "0 \<le> png_width (composite options grid)" "0 \<le> png_height (composite options grid)"
      by (simp_all add: cs(1,2))
    then have "PNG_sync_write (composite options grid) = Inr (composite options grid)"
      by (simp add: PNG_sync_write_def)
    then have p: "res = Inr (composite options grid)"
      by (simp add: res gd fst_gd)
    have cell: "grid ! (r * n + c) = 0 \<or> grid ! (r * n + c) = 1 \<or> grid ! (r * n + c) = 2"
      if "r < n" "c < n" for r c
    proof -
      have "r * n + c < n * n"
      proof -
        have "r * n + c < r * n + n" using that(2) by simp
        also have "\<dots> = Suc r * n" by simp
        also have "\<dots> \<le> n * n" using that(1) by (simp only: mult_le_mono1 Suc_leI)
        finally show ?thesis .
      qed
      then have "cell_ok (grid ! (r * n + c))"
        using cells by (simp add: list_all_length len)
      then show ?thesis
        by (simp add: cell_ok_def)
    qed
    have block: "pixel (composite options grid) (r * s + y) (c * s + x)
             = rgba (if grid ! (r * n + c) = 0 then bgColor
                     else if grid ! (r * n + c) = 1 then fgColor else spotColor)"
      if "r < n" "c < n" "y < s" "x < s" for r c y x
    proof -
      have "pixel (composite options grid) (r * s + y) (c * s + x)
             = rgba (cell_color options (grid ! (r * n + c)))"
        using that by (rule cs(4))
      then show ?thesis
        by (simp add: cell_color_def colors)
    qed
    have alpha: "pixel (composite options grid) Y X ! 3 = 255" if "Y < n * s" "X < n * s" for Y X
    proof -
      have "Y div s < n" "X div s < n"
        using that by (simp_all add: less_mult_imp_div_less)
      moreover have "Y mod s < s" "X mod s < s"
        using ns(4) by simp_all
      ultimately have "pixel (composite options grid) (Y div s * s + Y mod s) (X div s * s + X mod s)
             = rgba (if grid ! (Y div s * n + X div s) = 0 then bgColor
                     else if grid ! (Y div s * n + X div s) = 1 then fgColor else spotColor)"
        by (rule block)
      then show ?thesis
        by (simp add: rgba_alpha)
    qed
    have "png_width (composite options grid) = N * S" "png_height (composite options grid) = N * S"
      "length (png_data (composite options grid)) = 4 * (nat (N * S) * nat (N * S))"
      using cs(1,2,3) by (simp_all add: ns nat_NS)
    moreover have "\<exists>grid'. fst (createImageData N N (snd (createHSL seeded))) = Inr grid' \<and>
        length grid' = nat N * nat N \<and>
        (\<forall>r < nat N. \<forall>c < nat N.
           (grid' ! (r * nat N + c) = 0 \<or> grid' ! (r * nat N + c) = 1 \<or>
            grid' ! (r * nat N + c) = 2) \<and>
           (\<forall>y < nat S. \<forall>x < nat S.
              pixel (composite options grid) (r * nat S + y) (c * nat S + x)
                = rgba (if grid' ! (r * nat N + c) = 0 then bgColor
                        else if grid' ! (r * nat N + c) = 1 then fgColor
                        else spotColor)))"
      using fst_gd len block cell unfolding n_def [symmetric] s_def [symmetric] by blast
    moreover have "\<forall>Y < nat (N * S). \<forall>X < nat (N * S). pixel (composite options grid) Y X ! 3 = 255"
      using alpha by (simp add: nat_NS)
    ultimately show ?thesis
      using True by (simp add: p)
  next
    case False
    then have "fst (createImageData N N (snd (createHSL seeded))) = Inl RangeError"
      by (simp add: createImageData_error)
    then have "res = Inl RangeError"
      by (simp add: res gd)
    then show ?thesis
      using False by simp
  qed
  show ?thesis
    using bytes main by (rule conjI)
qed

text \<open>
  Claim C6 in a fresh process at seed \<open>"blocky"\<close>, size 3, scale 2 and \<open>spotColor = [1, 2, 3]\<close>.
  The grid is \<open>[0, 2, 0, 0, 0, 0, 1, 2, 1]\<close>, the drawn colour \<open>(79, 35, 34)\<close>: the image is
  6 by 6, white in the blocks of the cells that are 0, \<open>(79, 35, 34)\<close> where they are 1
  and \<open>(1, 2, 3)\<close> where they are 2.
\<close>

theorem createBuffer_samples_witness:
  "\<exists>p. fst (createBuffer [] optC initial_globals) = Inr p \<and>
     png_width p = 6 \<and> png_height p = 6 \<and> length (png_data p) = 144 \<and>
     pixel p 0 0 = [255, 255, 255, 255] \<and> pixel p 1 1 = [255, 255, 255, 255] \<and>
     pixel p 0 2 = [1, 2, 3, 255] \<and> pixel p 1 3 = [1, 2, 3, 255] \<and>
     pixel p 1 4 = [255, 255, 255, 255] \<and> pixel p 3 3 = [255, 255, 255, 255] \<and>
     pixel p 4 0 = [79, 35, 34, 255] \<and> pixel p 5 1 = [79, 35, 34, 255] \<and>
     pixel p 5 2 = [1, 2, 3, 255] \<and> pixel p 4 5 = [79, 35, 34, 255]"
proof -
  define res where "res = fst (createBuffer [] optC initial_globals)"
  have h1: "createBuffer [] optC initial_globals = (res, snd (createBuffer [] optC initial_globals))"
    by (simp add: res_def)
  have h2: "3 = nullish (opt_size optC) (def_size (defaultOptions initial_globals))"
    and h3: "2 = nullish (opt_scale optC) (def_scale (defaultOptions initial_globals))"
    and h6: "(3145, 3469, 111, 99)
        = createRandSeed (nullish (opt_seed optC) []) (randseed initial_globals)"
    and h8: "(255, 255, 255) = nullish (opt_bgColor optC) (def_bgColor (defaultOptions initial_globals))"
    and h9: "(79, 35, 34) = nullish (opt_fgColor optC) (79, 35, 34)"
    and h10: "(1, 2, 3) = nullish (opt_spotColor optC) (79, 35, 34)"
    by (simp_all add: optC_def nullish_def initial_globals_def seed_blocky)
  have h4: "(1::int) \<le> 3" and h5: "(1::int) \<le> 2"
    by simp_all
  have h7: "(79, 35, 34) = (case fst (createHSL (3145, 3469, 111, 99)) of (h, s, l) \<Rightarrow> hslToRgb h s l)"
    by (simp add: createHSL_blocky hslToRgb_blocky)
  note t = createBuffer_samples [OF h1 h2 h3 h4 h5 h6 h7 h8 h9 h10, THEN conjunct2]
  have grid: "fst (createImageData 3 3 (snd (createHSL (3145, 3469, 111, 99))))
      = Inr [0, 2, 0, 0, 0, 0, 1, 2, 1]"
    by (simp add: createHSL_blocky grid_blocky)
  obtain p where p: "res = Inr p"
    using t by (cases res) simp_all
  have dims: "png_width p = 6" "png_height p = 6" "length (png_data p) = 144"
    using t by (simp_all add: p)
  have "\<exists>grid. fst (createImageData 3 3 (snd (createHSL (3145, 3469, 111, 99)))) = Inr grid \<and>
      length grid = nat 3 * nat 3 \<and>
      (\<forall>r < nat 3. \<forall>c < nat 3.
         (grid ! (r * nat 3 + c) = 0 \<or> grid ! (r * nat 3 + c) = 1 \<or> grid ! (r * nat 3 + c) = 2) \<and>
         (\<forall>y < nat 2. \<forall>x < nat 2.
            pixel p (r * nat 2 + y) (c * nat 2 + x)
              = rgba (if grid ! (r * nat 3 + c) = 0 then (255, 255, 255)
                      else if grid ! (r * nat 3 + c) = 1 then (79, 35, 34)
                      else (1, 2, 3))))"
    using t by (simp add: p)
  then have blocks: "\<forall>r < nat 3. \<forall>c < nat 3. \<forall>y < nat 2. \<forall>x < nat 2.
      pixel p (r * nat 2 + y) (c * nat 2 + x)
        = rgba (if [0, 2, 0, 0, 0, 0, 1, 2, 1] ! (r * nat 3 + c) = (0::int) then (255, 255, 255)
                else if [0, 2, 0, 0, 0, 0, 1, 2, 1] ! (r * nat 3 + c) = (1::int) then (79, 35, 34)
                else (1, 2, 3))"
    unfolding grid by blast
  have block: "pixel p (r * 2 + y) (c * 2 + x)
        = rgba (if [0, 2, 0, 0, 0, 0, 1, 2, 1] ! (r * 3 + c) = (0::int) then (255, 255, 255)
                else if [0, 2, 0, 0, 0, 0, 1, 2, 1] ! (r * 3 + c) = (1::int) then (79, 35, 34)
                else (1, 2, 3))"
    if "r < 3" "c < 3" "y < 2" "x < 2" for r c y x
    using blocks that by simp
  have "pixel p 0 0 = [255, 255, 255, 255]"
    using block [of 0 0 0 0] by (simp add: rgba_def)
  moreover have "pixel p 1 1 = [255, 255, 255, 255]"
    using block [of 0 0 1 1] by (simp add: rgba_def)
  moreover have "pixel p 0 2 = [1, 2, 3, 255]"
    using block [of 0 1 0 0] by (simp add: rgba_def)
  moreover have "pixel p 1 3 = [1, 2, 3, 255]"
    using block [of 0 1 1 1] by (simp add: rgba_def)
  moreover have "pixel p 1 4 = [255, 255, 255, 255]"
    using block [of 0 2 1 0] by (simp add: rgba_def)
  moreover have "pixel p 3 3 = [255, 255, 255, 255]"
    using block [of 1 1 1 1] by (simp add: rgba_def)
  moreover have "pixel p 4 0 = [79, 35, 34, 255]"
    using block [of 2 0 0 0] by (simp add: rgba_def)
  moreover have "pixel p 5 1 = [79, 35, 34, 255]"
    using block [of 2 0 1 1] by (simp add: rgba_def)
  moreover have "pixel p 5 2 = [1, 2, 3, 255]"
    using block [of 2 1 1 0] by (simp add: rgba_def)
  moreover have "pixel p 4 5 = [79, 35, 34, 255]"
    using block [of 2 2 0 1] by (simp add: rgba_def)
  ultimately show ?thesis
    using p dims unfolding res_def by blast
qed

section \<open>Runs of \<open>createBuffer\<close>\<close>

lemma composite_single:
  assumes "def_size options = 1" "def_scale options = 1"
  shows "composite options [v] =
    \<lparr>png_width = 1, png_height = 1, png_data = rgba (cell_color options v)\<rparr>"
proof -
  have a: "def_size options = int 1" "def_scale options = int 1" "0 < (1::nat)" "length [v] = 1 * 1"
    using assms by simp_all
  note cs = composite_samples [OF a(1,2,3,3,4)]
  have "pixel (composite options [v]) (0 * 1 + 0) (0 * 1 + 0) = rgba (cell_color options ([v] ! (0 * 1 + 0)))"
    by (rule cs(4)) simp_all
  moreover have "length (png_data (composite options [v])) = 4"
    using cs(3) by simp
  ultimately have "png_data (composite options [v]) = rgba (cell_color options v)"
    by (simp add: pixel_def)
  moreover have "png_width (composite options [v]) = 1" "png_height (composite options [v]) = 1"
    using cs(1,2) by simp_all
  ultimately show ?thesis
    by (cases "composite options [v]") simp
qed

lemmas run_defs = createBuffer_eq merged_options_def grid_draw_def nullish_def composite_single
  PNG_sync_write_def cell_color_def rgba_def Let_def

lemma run_k1: "createBuffer [] optK initial_globals =
    (Inr \<lparr>png_width = 1, png_height = 1, png_data = [255, 255, 255, 255]\<rparr>, gK)"
  by (simp add: run_defs optK_def gK_def initial_globals_def seed_k1 createHSL_k1 hslToRgb_k1 grid_k1)

lemma run_k2: "createBuffer [] optK gK =
    (Inr \<lparr>png_width = 1, png_height = 1, png_data = [70, 21, 215, 255]\<rparr>,
     \<lparr>randseed = (1081584749, 1489748686, 321429577, 1803860838),
      defaultOptions = \<lparr>def_scale = 1, def_size = 1, def_seed = charCodes ''k'',
        def_fgColor = (70, 21, 215), def_bgColor = (255, 255, 255), def_spotColor = (70, 21, 215)\<rparr>\<rparr>)"
  by (simp add: run_defs optK_def gK_def seed_k2 createHSL_k2 hslToRgb_k2 grid_k2)

lemma run_a: "createBuffer [] optA initial_globals =
    (Inr \<lparr>png_width = 1, png_height = 1, png_data = [1, 2, 3, 255]\<rparr>,
     \<lparr>randseed = (0, 0, 0, 0),
      defaultOptions = \<lparr>def_scale = 1, def_size = 1, def_seed = [],
        def_fgColor = (0, 0, 0), def_bgColor = (1, 2, 3), def_spotColor = (0, 0, 0)\<rparr>\<rparr>)"
  by (simp add: run_defs optA_def initial_globals_def createRandSeed_empty createHSL_zero
      hslToRgb_zero grid_zero)

lemma run_b: "createBuffer [] optB initial_globals =
    (Inr \<lparr>png_width = 1, png_height = 1, png_data = [255, 255, 255, 255]\<rparr>,
     \<lparr>randseed = (0, 0, 0, 0),
      defaultOptions = \<lparr>def_scale = 1, def_size = 1, def_seed = [],
        def_fgColor = (0, 0, 0), def_bgColor = (255, 255, 255), def_spotColor = (0, 0, 0)\<rparr>\<rparr>)"
  by (simp add: run_defs optB_def initial_globals_def createRandSeed_empty createHSL_zero
      hslToRgb_zero grid_zero)

lemma run_ab: "createBuffer [] optB
     \<lparr>randseed = (0, 0, 0, 0),
      defaultOptions = \<lparr>def_scale = 1, def_size = 1, def_seed = [],
        def_fgColor = (0, 0, 0), def_bgColor = (1, 2, 3), def_spotColor = (0, 0, 0)\<rparr>\<rparr> =
    (Inr \<lparr>png_width = 1, png_height = 1, png_data = [1, 2, 3, 255]\<rparr>,
     \<lparr>randseed = (0, 0, 0, 0),
      defaultOptions = \<lparr>def_scale = 1, def_size = 1, def_seed = [],
        def_fgColor = (0, 0, 0), def_bgColor = (1, 2, 3), def_spotColor = (0, 0, 0)\<rparr>\<rparr>)"
  by (simp add: run_defs optB_def createRandSeed_empty createHSL_zero hslToRgb_zero grid_zero)

text \<open>
  Claim C1 fails on the code. \<open>randseed\<close> is a module-level variable that \<open>createBuffer\<close>
  never resets, so a second call with the same options folds the seed into the lanes the
  first call left behind. In a fresh process, two calls with seed \<open>"k"\<close>, size 1 and
  scale 1 give a white pixel and then the pixel \<open>(70, 21, 215)\<close>.
\<close>

theorem createBuffer_twice_differs:
  "fst (createBuffer [] optK initial_globals)
     = Inr \<lparr>png_width = 1, png_height = 1, png_data = [255, 255, 255, 255]\<rparr> \<and>
   fst (createBuffer [] optK (snd (createBuffer [] optK initial_globals)))
     = Inr \<lparr>png_width = 1, png_height = 1, png_data = [70, 21, 215, 255]\<rparr>"
  by (simp add: run_k1 run_k2)

text \<open>
  Claim C7 fails on the code. \<open>options\<close> is an alias of the module-level \<open>defaultOptions\<close>,
  so the background colour of one call stays as the default of the next. A call that
  omits \<open>bgColor\<close> paints its background cell white in a fresh process, and \<open>(1, 2, 3)\<close>
  after a call that passed \<open>bgColor = [1, 2, 3]\<close>.
\<close>

theorem bgColor_default_leaks:
  "fst (createBuffer [] optB initial_globals)
     = Inr \<lparr>png_width = 1, png_height = 1, png_data = [255, 255, 255, 255]\<rparr> \<and>
   fst (createBuffer [] optB (snd (createBuffer [] optA initial_globals)))
     = Inr \<lparr>png_width = 1, png_height = 1, png_data = [1, 2, 3, 255]\<rparr> \<and>
   def_bgColor (defaultOptions (snd (createBuffer [] optA initial_globals))) = (1, 2, 3)"
  by (simp add: run_a run_b run_ab)









text \<open>
  Claim C10 says that the grid can hold 3 and 4 because \<open>rand\<close> can return 1 or more.
  Neither happens: no engine state makes \<open>rand\<close> return 1 or more, and no grid built by
  \<open>createImageData\<close> holds a 3 or a 4.
\<close>

theorem grid_never_holds_three_or_four:
  "\<not> (\<exists>rs. 1 \<le> fst (rand rs)) \<and>
   \<not> (\<exists>N rs grid. fst (createImageData N N rs) = Inr grid \<and> (3 \<in> set grid \<or> 4 \<in> set grid))"
proof -
  have "\<not> 1 \<le> fst (rand rs)" for rs
    using rand_bounds [of rs] by simp
  moreover have "\<not> (3 \<in> set grid \<or> 4 \<in> set grid)"
    if "fst (createImageData N N rs) = Inr grid" for N rs grid
    using createImageData_cells [OF that] by (auto simp add: list_all_iff cell_ok_def)
  ultimately show ?thesis by blast
qed

text \<open>
  Claim C10, as amended. The mapping from cell values to colours is total: every value is
  painted with one of \<open>bgColor\<close>, \<open>fgColor\<close> and \<open>spotColor\<close>, and every value other than 0
  and 1 (3 and 4 too) takes the default branch, \<open>spotColor\<close>. For any grid of \<open>n * n\<close>
  values, every pixel of the block of every cell holds the colour mapped from the cell, so
  no cell is left unpainted. The grids that \<open>createImageData\<close> builds hold 0, 1 and 2
  only.
\<close>

theorem cell_color_total:
  "(cell_color options v = def_bgColor options \<or> cell_color options v = def_fgColor options \<or>
      cell_color options v = def_spotColor options) \<and>
   (v \<noteq> 0 \<and> v \<noteq> 1 \<longrightarrow> cell_color options v = def_spotColor options) \<and>
   (def_size options = int n \<and> def_scale options = int s \<and> 0 < n \<and> 0 < s \<and> length grid = n * n \<longrightarrow>
      (\<forall>r < n. \<forall>c < n. \<forall>y < s. \<forall>x < s.
         pixel (composite options grid) (r * s + y) (c * s + x)
           = rgba (cell_color options (grid ! (r * n + c))))) \<and>
   (fst (createImageData N N rs) = Inr grid' \<longrightarrow> (\<forall>v \<in> set grid'. v = 0 \<or> v = 1 \<or> v = 2))"
proof -
  have "cell_color options v = def_bgColor options \<or> cell_color options v = def_fgColor options \<or>
      cell_color options v = def_spotColor options"
    by (simp add: cell_color_def)
  moreover have "v \<noteq> 0 \<and> v \<noteq> 1 \<longrightarrow> cell_color options v = def_spotColor options"
    by (simp add: cell_color_def)
  moreover have "pixel (composite options grid) (r * s + y) (c * s + x)
           = rgba (cell_color options (grid ! (r * n + c)))"
    if "def_size options = int n" "def_scale options = int s" "0 < n" "0 < s" "length grid = n * n"
      "r < n" "c < n" "y < s" "x < s" for r c y x
    using that(6-9) by (rule composite_samples(4) [OF that(1-5)])
  moreover have "\<forall>v \<in> set grid'. v = 0 \<or> v = 1 \<or> v = 2"
    if "fst (createImageData N N rs) = Inr grid'"
    using createImageData_cells [OF that] by (simp add: list_all_iff cell_ok_def)
  ultimately show ?thesis by blast
qed

text \<open>The amended claim C10 at cell value 3 and the one-cell grid \<open>[3]\<close>.\<close>

theorem cell_color_total_witness:
  "(3::int) \<noteq> 0 \<and> (3::int) \<noteq> 1 \<and> cell_color options1 3 = def_spotColor options1 \<and>
   pixel (composite options1 [3]) 0 0 = rgba (def_spotColor options1) \<and>
   fst (createImageData 1 1 (0, 0, 0, 0)) = Inr [0] \<and>
   ((0::int) = 0 \<or> (0::int) = 1 \<or> (0::int) = 2)"
proof -
  note t = cell_color_total [of options1 3 1 1 "[3]" 1 "(0, 0, 0, 0)" "[0]"]
  have v: "(3::int) \<noteq> 0 \<and> (3::int) \<noteq> 1"
    by simp
  have spot: "cell_color options1 3 = def_spotColor options1"
    using t [THEN conjunct2, THEN conjunct1] v by (rule mp)
  have pre: "def_size options1 = int 1 \<and> def_scale options1 = int 1 \<and> 0 < (1::nat) \<and> 0 < (1::nat) \<and>
      length [3::int] = 1 * 1"
    by (simp add: options1_def)
  have all: "\<forall>r < 1. \<forall>c < 1. \<forall>y < 1. \<forall>x < 1.
         pixel (composite options1 [3]) (r * 1 + y) (c * 1 + x)
           = rgba (cell_color options1 ([3] ! (r * 1 + c)))"
    using t [THEN conjunct2, THEN conjunct2, THEN conjunct1] pre by (rule mp)
  have z: "(0::nat) < 1"
    by simp
  have "pixel (composite options1 [3]) (0 * 1 + 0) (0 * 1 + 0)
           = rgba (cell_color options1 ([3] ! (0 * 1 + 0)))"
    using all z by blast
  then have px: "pixel (composite options1 [3]) 0 0 = rgba (def_spotColor options1)"
    by (simp add: spot)
  have grid: "fst (createImageData 1 1 (0, 0, 0, 0)) = Inr [0]"
    by (simp add: grid_zero)
  with t [THEN conjunct2, THEN conjunct2, THEN conjunct2]
  have "\<forall>v \<in> set [0::int]. v = 0 \<or> v = 1 \<or> v = 2"
    by (rule mp)
  then have cells: "(0::int) = 0 \<or> (0::int) = 1 \<or> (0::int) = 2"
    by simp
  show ?thesis
    using v spot px grid cells by blast
qed

end
